theory Spec2Isabelle
  imports Complex_Main
begin


section \<open>Floating-point values\<close>

text \<open>
  The source stores every probability in a C++ \<^verbatim>\<open>double\<close>.  The model keeps the IEEE
  special values that the code can produce and test (\<^verbatim>\<open>log(0)\<close> is minus infinity,
  \<^verbatim>\<open>0.0/0\<close> is a NaN, a NaN compares unequal to everything) and idealises the finite
  values as exact reals: the sums, differences and quotients of the source and its
  exponential are not rounded, and signed zeros are not modelled.  The logarithm is
  treated differently, because a property of the program depends on its rounding: the
  function \<^verbatim>\<open>log\<close> that the program calls is a parameter \<open>log_c\<close> of the model,
  for which the exact logarithm \<open>dlog\<close> and the logarithm rounded to the nearest
  \<^verbatim>\<open>double\<close> can both be taken.
\<close>

datatype double = Finite real | PlusInf | MinusInf | NaN

text \<open>\<^verbatim>\<open>a < b\<close>, \<^verbatim>\<open>a == b\<close> and \<^verbatim>\<open>a != b\<close> on doubles.\<close>

fun dless :: "double \<Rightarrow> double \<Rightarrow> bool" where
  "dless NaN _ = False"
| "dless _ NaN = False"
| "dless (Finite x) (Finite y) = (x < y)"
| "dless MinusInf MinusInf = False"
| "dless MinusInf _ = True"
| "dless _ MinusInf = False"
| "dless PlusInf _ = False"
| "dless _ PlusInf = True"

definition deq :: "double \<Rightarrow> double \<Rightarrow> bool" where
  "deq a b = (a \<noteq> NaN \<and> b \<noteq> NaN \<and> a = b)"

definition dneq :: "double \<Rightarrow> double \<Rightarrow> bool" where
  "dneq a b = (\<not> deq a b)"

text \<open>\<^verbatim>\<open>-a\<close>, \<^verbatim>\<open>a + b\<close>, \<^verbatim>\<open>a - b\<close> and \<^verbatim>\<open>a / b\<close>.\<close>

fun dneg :: "double \<Rightarrow> double" where
  "dneg (Finite x) = Finite (- x)"
| "dneg PlusInf = MinusInf"
| "dneg MinusInf = PlusInf"
| "dneg NaN = NaN"

fun dadd :: "double \<Rightarrow> double \<Rightarrow> double" where
  "dadd NaN _ = NaN"
| "dadd _ NaN = NaN"
| "dadd (Finite x) (Finite y) = Finite (x + y)"
| "dadd PlusInf MinusInf = NaN"
| "dadd MinusInf PlusInf = NaN"
| "dadd PlusInf _ = PlusInf"
| "dadd _ PlusInf = PlusInf"
| "dadd MinusInf _ = MinusInf"
| "dadd _ MinusInf = MinusInf"

definition dsub :: "double \<Rightarrow> double \<Rightarrow> double" where
  "dsub a b = dadd a (dneg b)"

text \<open>
  Division is only ever applied by the source to two non-negative finite numbers
  (a count and a total); the remaining cases follow IEEE for a positive zero.
\<close>

fun ddiv :: "double \<Rightarrow> double \<Rightarrow> double" where
  "ddiv (Finite x) (Finite y) =
     (if y \<noteq> 0 then Finite (x / y)
      else if x = 0 then NaN
      else if 0 < x then PlusInf else MinusInf)"
| "ddiv NaN _ = NaN"
| "ddiv _ NaN = NaN"
| "ddiv (Finite x) _ = Finite 0"
| "ddiv PlusInf (Finite y) = (if 0 \<le> y then PlusInf else MinusInf)"
| "ddiv MinusInf (Finite y) = (if 0 \<le> y then MinusInf else PlusInf)"
| "ddiv _ _ = NaN"

text \<open>The exact logarithm, and \<^verbatim>\<open>exp\<close> of \<^verbatim>\<open>math.h\<close>.\<close>

fun dlog :: "double \<Rightarrow> double" where
  "dlog (Finite x) = (if 0 < x then Finite (ln x) else if x = 0 then MinusInf else NaN)"
| "dlog PlusInf = PlusInf"
| "dlog MinusInf = NaN"
| "dlog NaN = NaN"

fun dexp :: "double \<Rightarrow> double" where
  "dexp (Finite x) = Finite (exp x)"
| "dexp PlusInf = PlusInf"
| "dexp MinusInf = Finite 0"
| "dexp NaN = NaN"

text \<open>Conversion of an \<^verbatim>\<open>int\<close> or a \<^verbatim>\<open>size_t\<close> to \<^verbatim>\<open>double\<close>.\<close>

definition double_of_nat :: "nat \<Rightarrow> double" where
  "double_of_nat n = Finite (real n)"

definition double_of_int :: "int \<Rightarrow> double" where
  "double_of_int i = Finite (real_of_int i)"

section \<open>Failures\<close>

text \<open>
  A failed \<^verbatim>\<open>assert\<close> aborts the process (the assertions are taken to be compiled in);
  the model returns the asserted expression.
  Reads and writes outside a vector, the dereference of a null or past-the-end pointer
  and the use of an uninitialised variable are undefined behaviour in C++; the model
  stops there and says so.
\<close>

datatype error = AssertionFailed string | UndefinedBehaviour string

text \<open>Sequencing: the first failure ends the run.\<close>

definition ebind :: "error + 'a \<Rightarrow> ('a \<Rightarrow> error + 'b) \<Rightarrow> error + 'b" where
  "ebind m f = (case m of Inl e \<Rightarrow> Inl e | Inr x \<Rightarrow> f x)"

text \<open>A \<^verbatim>\<open>for\<close> loop over the values \<open>xs\<close> whose body may fail.\<close>

fun foldM :: "('a \<Rightarrow> 's \<Rightarrow> error + 's) \<Rightarrow> 'a list \<Rightarrow> 's \<Rightarrow> error + 's" where
  "foldM f [] s = Inr s"
| "foldM f (x # xs) s = ebind (f x s) (foldM f xs)"

text \<open>\<^verbatim>\<open>v[i]\<close> on a \<^verbatim>\<open>std::vector\<close>: not checked by C++, undefined out of range.\<close>

definition vec_get :: "'a list \<Rightarrow> nat \<Rightarrow> error + 'a" where
  "vec_get xs i =
     (if i < length xs then Inr (xs ! i)
      else Inl (UndefinedBehaviour ''vector index out of range''))"

text \<open>
  An \<^verbatim>\<open>int\<close> variable used as an index into a vector of \<open>n\<close> elements.  The variable
  is \<open>None\<close> when nothing was ever stored in it.
\<close>

definition index :: "int option \<Rightarrow> nat \<Rightarrow> error + nat" where
  "index v n =
     (case v of
        None \<Rightarrow> Inl (UndefinedBehaviour ''uninitialised index'')
      | Some i \<Rightarrow>
          if 0 \<le> i \<and> i < int n then Inr (nat i)
          else Inl (UndefinedBehaviour ''vector index out of range''))"

section \<open>The HMM object\<close>

text \<open>
  The fields of class \<^verbatim>\<open>HMM\<close> and of its base class \<^verbatim>\<open>MarkovModel\<close>, as the member
  functions use them (the two class declarations are in headers that are not part of the
  sources at hand).  The numbers of states and of symbols are natural numbers; a vector
  is a list, and a matrix a list of rows.
\<close>

record hmm =
  N_states :: nat
  N_symbols :: nat
  init_probs :: "double list"
  trans_probs :: "double list list"
  state_freqs :: "double list"
  has_init_probs :: bool
  has_trans_probs :: bool
  symbol_emiss_probs :: "double list list"
  observations :: "int list"
  time_emiss_probs :: "double list list"
  has_symbol_emiss_probs :: bool
  has_observations :: bool
  has_time_emiss_probs :: bool
  ran_viterbi :: bool
  ran_baum_welch :: bool

text \<open>
  Modelled from the spec: \<^verbatim>\<open>is_discrete_HMM\<close> is declared in \<^verbatim>\<open>HMM.h\<close>.  The spec says
  that \<open>M = 0\<close> symbols means the continuous variant, and so does the comment on the
  constructor.
\<close>

definition is_discrete_HMM :: "hmm \<Rightarrow> bool" where
  "is_discrete_HMM h = (N_symbols h \<noteq> 0)"

text \<open>
  The constructor clears the flags of the loaded data and of the training runs; the
  tables start empty.  (The flags of the base class are cleared too: the specification
  gives each table a flag that says whether it has been loaded.)
\<close>

definition HMM :: "nat \<Rightarrow> nat \<Rightarrow> hmm" where
  "HMM n_states n_symbols =
     \<lparr> N_states = n_states, N_symbols = n_symbols,
       init_probs = [], trans_probs = [], state_freqs = [],
       has_init_probs = False, has_trans_probs = False,
       symbol_emiss_probs = [], observations = [], time_emiss_probs = [],
       has_symbol_emiss_probs = False, has_observations = False,
       has_time_emiss_probs = False,
       ran_viterbi = False, ran_baum_welch = False \<rparr>"

subsection \<open>SetObservations\<close>

definition SetObservations :: "hmm \<Rightarrow> int list \<Rightarrow> error + hmm" where
  "SetObservations h obs =
     (if \<not> is_discrete_HMM h then Inl (AssertionFailed ''is_discrete_HMM()'')
      else Inr (h\<lparr> observations := obs, has_observations := True \<rparr>))"

subsection \<open>SetTimeEmissProbs\<close>

text \<open>
  \<^verbatim>\<open>std::max_element\<close> returns an iterator to the first largest element, found with
  \<^verbatim>\<open><\<close>; on an empty range it returns the end iterator (\<open>None\<close>), which the source
  dereferences.
\<close>

fun max_element :: "double list \<Rightarrow> double option" where
  "max_element [] = None"
| "max_element (x # xs) = Some (foldl (\<lambda>largest y. if dless largest y then y else largest) x xs)"

text \<open>
  The inner loop over \<open>j\<close>: the assertion on entry \<open>j\<close> runs before the entry is stored.
  The row has \<open>N_states\<close> entries (asserted before the loop), so the loop visits
  exactly the entries of the row.
\<close>

fun store_row :: "double \<Rightarrow> double \<Rightarrow> double list \<Rightarrow> error + double list" where
  "store_row LOG_ZERO mx [] = Inr []"
| "store_row LOG_ZERO mx (p # ps) =
     (if dneq p LOG_ZERO
      then (case store_row LOG_ZERO mx ps of
              Inl e \<Rightarrow> Inl e
            | Inr r \<Rightarrow> Inr (dsub p mx # r))
      else Inl (AssertionFailed ''probs[i][j] != LOG_ZERO''))"

text \<open>The outer loop over the timepoints \<open>i\<close>.\<close>

fun store_rows :: "double \<Rightarrow> double list list \<Rightarrow> error + double list list" where
  "store_rows LOG_ZERO [] = Inr []"
| "store_rows LOG_ZERO (row # rows) =
     (case max_element row of
        None \<Rightarrow> Inl (UndefinedBehaviour ''*max_element of an empty row'')
      | Some mx \<Rightarrow>
          (case store_row LOG_ZERO mx row of
             Inl e \<Rightarrow> Inl e
           | Inr r \<Rightarrow>
               (case store_rows LOG_ZERO rows of
                  Inl e \<Rightarrow> Inl e
                | Inr rs \<Rightarrow> Inr (r # rs))))"

text \<open>
  \<^verbatim>\<open>LOG_ZERO\<close> is defined in a header that is not part of the sources at hand; it is a
  parameter of every function that uses it.  The table is resized to the number of rows
  of the input and every entry of it is then assigned, so the table that results is made
  of the rows stored by the loop.
\<close>

definition SetTimeEmissProbs :: "double \<Rightarrow> hmm \<Rightarrow> double list list \<Rightarrow> error + hmm" where
  "SetTimeEmissProbs LOG_ZERO h probs =
     (if is_discrete_HMM h then Inl (AssertionFailed ''!is_discrete_HMM()'')
      else if probs = [] then Inl (AssertionFailed ''!probs.empty()'')
      else if list_ex (\<lambda>row. length row \<noteq> N_states h) probs
        then Inl (AssertionFailed ''(int)probs[i].size() == _N_states'')
      else (case store_rows LOG_ZERO probs of
              Inl e \<Rightarrow> Inl e
            | Inr tbl \<Rightarrow> Inr (h\<lparr> time_emiss_probs := tbl, has_time_emiss_probs := True \<rparr>)))"

subsection \<open>HasAllData and NTimepoints\<close>

definition HasAllData :: "hmm \<Rightarrow> bool" where
  "HasAllData h =
     (if \<not> has_init_probs h then False
      else if \<not> has_trans_probs h then False
      else if is_discrete_HMM h then
        (if \<not> has_symbol_emiss_probs h then False
         else if \<not> has_observations h then False
         else True)
      else if \<not> has_time_emiss_probs h then False
      else True)"

definition NTimepoints :: "hmm \<Rightarrow> error + nat" where
  "NTimepoints h =
     (if \<not> HasAllData h then Inl (AssertionFailed ''HasAllData()'')
      else if is_discrete_HMM h then Inr (length (observations h))
      else Inr (length (time_emiss_probs h)))"

section \<open>Edge names\<close>

subsection \<open>Writing a name: sprintf\<close>

definition digit_char :: "nat \<Rightarrow> char" where
  "digit_char d = ''0123456789'' ! d"

function string_of_nat :: "nat \<Rightarrow> string" where
  "string_of_nat n =
     (if n < 10 then [digit_char n]
      else string_of_nat (n div 10) @ [digit_char (n mod 10)])"
  by pat_completeness auto
termination
  by (relation "measure id") auto

text \<open>The conversion \<^verbatim>\<open>%d\<close>.\<close>

definition sprintf_d :: "int \<Rightarrow> string" where
  "sprintf_d i =
     (if i < 0 then CHR ''-'' # string_of_nat (nat (- i)) else string_of_nat (nat i))"

definition name_S :: "int \<Rightarrow> string" where
  "name_S i = ''S '' @ sprintf_d i"

definition name_T :: "int \<Rightarrow> int \<Rightarrow> string" where
  "name_T i_prev i = ''T '' @ sprintf_d i_prev @ '' '' @ sprintf_d i"

definition name_E :: "int \<Rightarrow> int \<Rightarrow> string" where
  "name_E i obs = ''E '' @ sprintf_d i @ '' '' @ sprintf_d obs"

subsection \<open>Reading a name: istringstream\<close>

text \<open>
  \<^verbatim>\<open>*iss >> type >> S1 >> S2\<close>.  Each extraction skips leading white space.  Reading a
  \<^verbatim>\<open>char\<close> takes the next character; reading an \<^verbatim>\<open>int\<close> takes an optional sign and
  the longest run of decimal digits.  An extraction that finds nothing fails, stores
  nothing, and makes every later extraction fail; the variable then still holds
  whatever it held before, which in the source is nothing (\<open>None\<close>).
\<close>

definition is_space :: "char \<Rightarrow> bool" where
  "is_space c = (c \<in> {CHR '' '', CHR 0x09, CHR 0x0A, CHR 0x0B, CHR 0x0C, CHR 0x0D})"

definition is_digit :: "char \<Rightarrow> bool" where
  "is_digit c = (48 \<le> (of_char c :: nat) \<and> (of_char c :: nat) \<le> 57)"

definition digit_val :: "char \<Rightarrow> nat" where
  "digit_val c = of_char c - 48"

fun read_digits :: "nat \<Rightarrow> string \<Rightarrow> nat \<times> string" where
  "read_digits acc [] = (acc, [])"
| "read_digits acc (c # cs) =
     (if is_digit c then read_digits (10 * acc + digit_val c) cs else (acc, c # cs))"

definition extract_char :: "string \<Rightarrow> char option \<times> string" where
  "extract_char s =
     (case dropWhile is_space s of
        [] \<Rightarrow> (None, [])
      | c # cs \<Rightarrow> (Some c, cs))"

definition extract_int :: "string \<Rightarrow> int option \<times> string" where
  "extract_int s =
     (case dropWhile is_space s of
        [] \<Rightarrow> (None, [])
      | c # cs \<Rightarrow>
          (let neg = (c = CHR ''-'');
               ds = (if c = CHR ''-'' \<or> c = CHR ''+'' then cs else c # cs)
           in case ds of
                [] \<Rightarrow> (None, [])
              | d # _ \<Rightarrow>
                  if is_digit d
                  then (case read_digits 0 ds of
                          (n, rest) \<Rightarrow> (Some (if neg then - int n else int n), rest))
                  else (None, ds)))"

definition parse_edge_name :: "string \<Rightarrow> char option \<times> int option \<times> int option" where
  "parse_edge_name name =
     (case extract_char name of
        (None, _) \<Rightarrow> (None, None, None)
      | (Some ty, r1) \<Rightarrow>
          (case extract_int r1 of
             (None, _) \<Rightarrow> (Some ty, None, None)
           | (Some s1, r2) \<Rightarrow> (Some ty, Some s1, fst (extract_int r2))))"

text \<open>
  \<^verbatim>\<open>assert( type == 'S' || type == 'T' || type == 'E' || type == 'F' )\<close>
\<close>

definition known_type :: "char option \<Rightarrow> bool" where
  "known_type ty =
     (ty = Some CHR ''S'' \<or> ty = Some CHR ''T'' \<or> ty = Some CHR ''E'' \<or> ty = Some CHR ''F'')"

section \<open>The weighted directed acyclic graph\<close>

text \<open>
  Modelled from the spec: the classes \<^verbatim>\<open>WDAG\<close> and \<^verbatim>\<open>WDAGNode\<close> are declared in a
  header that is not part of the sources at hand.  The spec says: a node stores an id, a
  list of parent references and, for each parent, an edge name and an edge log-weight;
  \<^verbatim>\<open>add_node\<close> appends a node, and ids increase; \<^verbatim>\<open>add_edge\<close> asserts that the
  parent's id is smaller than the child's; the solvers compute the per-node scalars \<open>fw\<close>
  and \<open>bw\<close>, and the sequence of edge names on the best path.

  A node is referred to by its id, which is its position in the graph's list of nodes;
  a null pointer is \<open>None\<close>.  Entry \<open>j\<close> of \<open>in_edges\<close> holds what the source reads as
  \<^verbatim>\<open>_parents[j]\<close>, \<^verbatim>\<open>_in_e_names[j]\<close> and \<^verbatim>\<open>_in_e_weights[j]\<close>; \<^verbatim>\<open>_n_parents\<close> is its
  length.  The scalars \<open>fw_prob\<close> and \<open>bw_prob\<close> are zero until a solver sets them.
\<close>

record wdag_node =
  in_edges :: "(nat \<times> string \<times> double) list"
  fw_prob :: double
  bw_prob :: double

record wdag =
  nodes :: "wdag_node list"
  req_start :: "nat option"
  req_end :: "nat option"
  best_edges :: "string list"

definition empty_WDAG :: wdag where
  "empty_WDAG = \<lparr> nodes = [], req_start = None, req_end = None, best_edges = [] \<rparr>"

definition AddNode :: "wdag \<Rightarrow> wdag \<times> nat" where
  "AddNode w =
     (w\<lparr> nodes := nodes w @ [\<lparr> in_edges = [], fw_prob = Finite 0, bw_prob = Finite 0 \<rparr>] \<rparr>,
      length (nodes w))"

definition AddEdge :: "wdag \<Rightarrow> nat \<Rightarrow> nat option \<Rightarrow> string \<Rightarrow> double \<Rightarrow> error + wdag" where
  "AddEdge w child parent name weight =
     (case parent of
        None \<Rightarrow> Inl (UndefinedBehaviour ''null parent'')
      | Some p \<Rightarrow>
          if \<not> p < child then Inl (AssertionFailed ''parent id < child id'')
          else ebind (vec_get (nodes w) child) (\<lambda>c.
            Inr (w\<lparr> nodes := (nodes w)[child := c\<lparr> in_edges := in_edges c @ [(p, name, weight)] \<rparr>] \<rparr>)))"

definition SetReqStart :: "wdag \<Rightarrow> nat \<Rightarrow> wdag" where
  "SetReqStart w n = w\<lparr> req_start := Some n \<rparr>"

definition SetReqEnd :: "wdag \<Rightarrow> nat \<Rightarrow> wdag" where
  "SetReqEnd w n = w\<lparr> req_end := Some n \<rparr>"

section \<open>The trellis builder: to\_WDAG\<close>

text \<open>
  The loop state is the graph and the two vectors \<^verbatim>\<open>stateA\<close> and \<^verbatim>\<open>stateB\<close> of node
  pointers, which start as \<open>N_states\<close> null pointers.
\<close>

type_synonym builder = "wdag \<times> nat option list \<times> nat option list"

text \<open>
  The body of the first inner loop, for state \<open>i\<close> at timepoint \<open>t\<close>: a new node
  \<^verbatim>\<open>stateA[i]\<close>, with one edge from the start node at the first timepoint and one edge
  from every \<^verbatim>\<open>stateB[i_prev]\<close> later.
\<close>

definition add_A :: "hmm \<Rightarrow> nat \<Rightarrow> nat \<Rightarrow> nat \<Rightarrow> builder \<Rightarrow> error + builder" where
  "add_A h start_node t i b =
     (case b of (w, stateA, stateB) \<Rightarrow>
        (case AddNode w of (w1, a) \<Rightarrow>
           (let stateA1 = stateA[i := Some a] in
            if t = 0 then
              ebind (vec_get (init_probs h) i) (\<lambda>p.
              ebind (AddEdge w1 a (Some start_node) (name_S (int i)) p) (\<lambda>w2.
              Inr (w2, stateA1, stateB)))
            else
              ebind (foldM (\<lambda>i_prev w'.
                       ebind (vec_get (trans_probs h) i_prev) (\<lambda>row.
                       ebind (vec_get row i) (\<lambda>p.
                       AddEdge w' a (stateB ! i_prev) (name_T (int i_prev) (int i)) p)))
                     [0..<N_states h] w1) (\<lambda>w2.
              Inr (w2, stateA1, stateB)))))"

text \<open>
  The body of the second inner loop: the emission probability of state \<open>i\<close> at
  timepoint \<open>t\<close>, a new node \<^verbatim>\<open>stateB[i]\<close> and the emission edge.
\<close>

definition emission :: "hmm \<Rightarrow> nat \<Rightarrow> nat \<Rightarrow> error + int \<times> double" where
  "emission h t i =
     (if is_discrete_HMM h then
        ebind (vec_get (observations h) t) (\<lambda>obs.
        ebind (vec_get (symbol_emiss_probs h) i) (\<lambda>row.
        ebind (index (Some obs) (length row)) (\<lambda>k.
        Inr (obs, row ! k))))
      else
        ebind (vec_get (time_emiss_probs h) t) (\<lambda>row.
        ebind (vec_get row i) (\<lambda>p.
        Inr (- 1, p))))"

definition add_B :: "hmm \<Rightarrow> nat \<Rightarrow> nat \<Rightarrow> builder \<Rightarrow> error + builder" where
  "add_B h t i b =
     (case b of (w, stateA, stateB) \<Rightarrow>
        ebind (emission h t i) (\<lambda>(obs, emiss_prob).
        (case AddNode w of (w1, n) \<Rightarrow>
           ebind (AddEdge w1 n (stateA ! i) (name_E (int i) obs) emiss_prob) (\<lambda>w2.
           Inr (w2, stateA, stateB[i := Some n])))))"

definition add_timepoint :: "hmm \<Rightarrow> nat \<Rightarrow> nat \<Rightarrow> builder \<Rightarrow> error + builder" where
  "add_timepoint h start_node t b =
     ebind (foldM (add_A h start_node t) [0..<N_states h] b)
           (foldM (add_B h t) [0..<N_states h])"

definition to_WDAG :: "hmm \<Rightarrow> error + wdag" where
  "to_WDAG h =
     (if \<not> HasAllData h then Inl (AssertionFailed ''HasAllData()'')
      else
        ebind (NTimepoints h) (\<lambda>T.
        (case AddNode empty_WDAG of (w0, start_node) \<Rightarrow>
           ebind (foldM (add_timepoint h start_node) [0..<T]
                    (SetReqStart w0 start_node,
                     replicate (N_states h) None, replicate (N_states h) None))
             (\<lambda>(w1, stateA, stateB).
               (case AddNode w1 of (w2, end_node) \<Rightarrow>
                  ebind (foldM (\<lambda>i w'. AddEdge w' end_node (stateB ! i) ''F'' (Finite 0))
                           [0..<N_states h] w2) (\<lambda>w3.
                  (let w4 = SetReqEnd w3 end_node in
                   if length (nodes w4) \<noteq> 2 * N_states h * T + 2
                   then Inl (AssertionFailed
                          ''(size_t) wdag.N() == 2 * _N_states * NTimepoints() + 2'')
                   else Inr w4)))))))"

section \<open>Re-estimation\<close>

subsection \<open>Storing new probabilities\<close>

text \<open>
  The five loops of the source that store re-estimated probabilities have one shape:
  \<^verbatim>\<open>if ( table[j] != new_prob ) change = true;  table[j] = new_prob;\<close>
  for every \<open>j\<close> below a bound, and for a matrix the same for every row \<open>i\<close>.  The new
  probability is a function \<open>f\<close> of the position.
\<close>

definition assign_step ::
    "(nat \<Rightarrow> double) \<Rightarrow> nat \<Rightarrow> double list \<times> bool \<Rightarrow> error + double list \<times> bool" where
  "assign_step f j s =
     (case s of (row, change) \<Rightarrow>
        ebind (vec_get row j) (\<lambda>old.
        Inr (row[j := f j], (if dneq old (f j) then True else change))))"

definition assign_row ::
    "(nat \<Rightarrow> double) \<Rightarrow> nat \<Rightarrow> double list \<times> bool \<Rightarrow> error + double list \<times> bool" where
  "assign_row f n = foldM (assign_step f) [0..<n]"

definition assign_table_step ::
    "(nat \<Rightarrow> nat \<Rightarrow> double) \<Rightarrow> nat \<Rightarrow> nat \<Rightarrow> double list list \<times> bool
       \<Rightarrow> error + double list list \<times> bool" where
  "assign_table_step f n i s =
     (case s of (tbl, change) \<Rightarrow>
        ebind (vec_get tbl i) (\<lambda>row.
        ebind (assign_row (f i) n (row, change)) (\<lambda>(row', change').
        Inr (tbl[i := row'], change'))))"

definition assign_table ::
    "(nat \<Rightarrow> nat \<Rightarrow> double) \<Rightarrow> nat \<Rightarrow> nat \<Rightarrow> double list list \<times> bool
       \<Rightarrow> error + double list list \<times> bool" where
  "assign_table f m n = foldM (assign_table_step f n) [0..<m]"

subsection \<open>AdjustProbsToViterbi\<close>

record viterbi_tally =
  trans_counts :: "int list list"
  emiss_counts :: "int list list"
  state_counts :: "int list"
  states :: "int list"

text \<open>\<^verbatim>\<open>counts[S1][S2]++\<close> and \<^verbatim>\<open>counts[S1]++\<close>.\<close>

definition incr2 :: "int list list \<Rightarrow> int option \<Rightarrow> int option \<Rightarrow> error + int list list" where
  "incr2 counts S1 S2 =
     ebind (index S1 (length counts)) (\<lambda>i.
     ebind (index S2 (length (counts ! i))) (\<lambda>j.
     Inr (counts[i := (counts ! i)[j := counts ! i ! j + 1]])))"

definition incr1 :: "int list \<Rightarrow> int option \<Rightarrow> error + int list" where
  "incr1 counts S1 =
     ebind (index S1 (length counts)) (\<lambda>i.
     Inr (counts[i := counts ! i + 1]))"

text \<open>The body of the loop over the edge names of the best path.\<close>

definition tally_edge :: "hmm \<Rightarrow> string \<Rightarrow> viterbi_tally \<Rightarrow> error + viterbi_tally" where
  "tally_edge h name v =
     (case parse_edge_name name of (ty, S1, S2) \<Rightarrow>
        if \<not> known_type ty
        then Inl (AssertionFailed ''type == 'S' || type == 'T' || type == 'E' || type == 'F' '')
        else
          ebind (if ty = Some CHR ''T''
                 then ebind (incr2 (trans_counts v) S1 S2) (\<lambda>c. Inr (v\<lparr> trans_counts := c \<rparr>))
                 else Inr v) (\<lambda>v1.
          if ty = Some CHR ''E'' then
            ebind (if is_discrete_HMM h
                   then ebind (incr2 (emiss_counts v1) S1 S2) (\<lambda>c. Inr (v1\<lparr> emiss_counts := c \<rparr>))
                   else Inr v1) (\<lambda>v2.
            ebind (incr1 (state_counts v2) S1) (\<lambda>c.
            Inr (v2\<lparr> state_counts := c, states := states v2 @ [the S1] \<rparr>)))
          else Inr v1))"

definition initial_tally :: "hmm \<Rightarrow> viterbi_tally" where
  "initial_tally h =
     \<lparr> trans_counts = replicate (N_states h) (replicate (N_states h) 0),
       emiss_counts = replicate (N_states h) (replicate (N_symbols h) 0),
       state_counts = replicate (N_states h) 0,
       states = [] \<rparr>"

text \<open>
  The new probability of entry \<open>j\<close> of a row of counts, with the pseudocount fallback
  over \<open>n\<close> outcomes when the row is empty: \<^verbatim>\<open>total == 0 ? -log(n) : log(double(counts[j]) / total)\<close>.
\<close>

definition viterbi_new_prob :: "(double \<Rightarrow> double) \<Rightarrow> nat \<Rightarrow> int list \<Rightarrow> nat \<Rightarrow> double" where
  "viterbi_new_prob log_c n counts j =
     (let total = sum_list counts in
      if total = 0 then dneg (log_c (double_of_nat n))
      else log_c (ddiv (double_of_int (counts ! j)) (double_of_int total)))"

definition AdjustProbsToViterbi ::
    "(double \<Rightarrow> double) \<Rightarrow> hmm \<Rightarrow> string list \<Rightarrow> error + hmm \<times> bool \<times> int list" where
  "AdjustProbsToViterbi log_c h best_path =
     (if best_path = [] then Inl (AssertionFailed ''!best_path.empty()'')
      else
        ebind (foldM (tally_edge h) best_path (initial_tally h)) (\<lambda>v.
        ebind (NTimepoints h) (\<lambda>T.
        if length (states v) \<noteq> T
        then Inl (AssertionFailed ''states.size() == NTimepoints()'')
        else
          (let h1 = h\<lparr> state_freqs :=
                        map (\<lambda>i. ddiv (double_of_int (state_counts v ! i)) (double_of_nat T))
                          [0..<N_states h] \<rparr>
           in
           ebind (assign_table (\<lambda>i. viterbi_new_prob log_c (N_states h) (trans_counts v ! i))
                    (N_states h) (N_states h) (trans_probs h1, False)) (\<lambda>(tp, change).
           (let h2 = h1\<lparr> trans_probs := tp \<rparr> in
            if is_discrete_HMM h then
              ebind (assign_table (\<lambda>i. viterbi_new_prob log_c (N_symbols h) (emiss_counts v ! i))
                       (N_states h) (N_symbols h) (symbol_emiss_probs h2, change))
                (\<lambda>(ep, change'). Inr (h2\<lparr> symbol_emiss_probs := ep \<rparr>, change', states v))
            else Inr (h2, change, states v)))))))"

subsection \<open>AdjustProbsToBaumWelch\<close>

text \<open>
  \<^verbatim>\<open>lnsum\<close> is defined in a header that is not part of the sources at hand; like
  \<^verbatim>\<open>LOG_ZERO\<close> it is a parameter.
\<close>

record bw_sums =
  new_init_probs :: "double list"
  new_trans_probs :: "double list list"
  new_emiss_probs :: "double list list"
  new_state_freqs :: "double list"
  n_emissions :: nat

definition initial_sums :: "double \<Rightarrow> hmm \<Rightarrow> bw_sums" where
  "initial_sums LOG_ZERO h =
     \<lparr> new_init_probs = replicate (N_states h) LOG_ZERO,
       new_trans_probs = replicate (N_states h) (replicate (N_states h) LOG_ZERO),
       new_emiss_probs = replicate (N_states h) (replicate (N_symbols h) LOG_ZERO),
       new_state_freqs = replicate (N_states h) LOG_ZERO,
       n_emissions = 0 \<rparr>"

text \<open>\<^verbatim>\<open>acc[S1][S2] = lnsum( acc[S1][S2], p_prob )\<close> and the same for a vector.\<close>

definition lnsum2 ::
    "(double \<Rightarrow> double \<Rightarrow> double) \<Rightarrow> double list list \<Rightarrow> int option \<Rightarrow> int option \<Rightarrow> double
       \<Rightarrow> error + double list list" where
  "lnsum2 lnsum acc S1 S2 p =
     ebind (index S1 (length acc)) (\<lambda>i.
     ebind (index S2 (length (acc ! i))) (\<lambda>j.
     Inr (acc[i := (acc ! i)[j := lnsum (acc ! i ! j) p]])))"

definition lnsum1 ::
    "(double \<Rightarrow> double \<Rightarrow> double) \<Rightarrow> double list \<Rightarrow> int option \<Rightarrow> double
       \<Rightarrow> error + double list" where
  "lnsum1 lnsum acc S1 p =
     ebind (index S1 (length acc)) (\<lambda>i.
     Inr (acc[i := lnsum (acc ! i) p]))"

text \<open>
  The body of the loop over the in-edges of the node \<open>child\<close>.  (The line that prints a
  NaN transition sum writes to the terminal only.)
\<close>

definition bw_edge ::
    "(double \<Rightarrow> double \<Rightarrow> double) \<Rightarrow> hmm \<Rightarrow> wdag \<Rightarrow> nat \<Rightarrow> nat \<times> string \<times> double
       \<Rightarrow> bw_sums \<Rightarrow> error + bw_sums" where
  "bw_edge lnsum h w child e a =
     (case e of (parent, edge_name, edge_weight) \<Rightarrow>
        ebind (vec_get (nodes w) parent) (\<lambda>pn.
        ebind (vec_get (nodes w) child) (\<lambda>cn.
        (let p_prob = dadd (dadd (fw_prob pn) (bw_prob cn)) edge_weight in
         case parse_edge_name edge_name of (ty, S1, S2) \<Rightarrow>
           if \<not> known_type ty
           then Inl (AssertionFailed
                  ''type == 'S' || type == 'T' || type == 'E' || type == 'F' '')
           else if ty = Some CHR ''S'' then
             ebind (index S1 (length (new_init_probs a))) (\<lambda>i.
             Inr (a\<lparr> new_init_probs := (new_init_probs a)[i := p_prob] \<rparr>))
           else if ty = Some CHR ''T'' then
             ebind (lnsum2 lnsum (new_trans_probs a) S1 S2 p_prob) (\<lambda>s.
             Inr (a\<lparr> new_trans_probs := s \<rparr>))
           else if ty = Some CHR ''E'' then
             ebind (if is_discrete_HMM h
                    then ebind (lnsum2 lnsum (new_emiss_probs a) S1 S2 p_prob) (\<lambda>s.
                         Inr (a\<lparr> new_emiss_probs := s \<rparr>))
                    else Inr a) (\<lambda>a1.
             ebind (lnsum1 lnsum (new_state_freqs a1) S1 p_prob) (\<lambda>s.
             Inr (a1\<lparr> new_state_freqs := s, n_emissions := n_emissions a1 + 1 \<rparr>)))
           else Inr a))))"

text \<open>The loop over all nodes \<open>i\<close> of the graph and, inside, over the in-edges of node \<open>i\<close>.\<close>

definition bw_edges ::
    "(double \<Rightarrow> double \<Rightarrow> double) \<Rightarrow> hmm \<Rightarrow> wdag \<Rightarrow> bw_sums \<Rightarrow> error + bw_sums" where
  "bw_edges lnsum h w =
     foldM (\<lambda>i a. ebind (vec_get (nodes w) i) (\<lambda>child.
                  foldM (bw_edge lnsum h w i) (in_edges child) a))
       [0..<length (nodes w)]"

text \<open>\<^verbatim>\<open>denom = LOG_ZERO; for j < n: denom = lnsum( denom, acc[j] )\<close>\<close>

definition lnsum_total ::
    "(double \<Rightarrow> double \<Rightarrow> double) \<Rightarrow> double \<Rightarrow> nat \<Rightarrow> double list \<Rightarrow> double" where
  "lnsum_total lnsum LOG_ZERO n acc = foldl (\<lambda>denom j. lnsum denom (acc ! j)) LOG_ZERO [0..<n]"

definition AdjustProbsToBaumWelch ::
    "double \<Rightarrow> (double \<Rightarrow> double \<Rightarrow> double) \<Rightarrow> hmm \<Rightarrow> wdag \<Rightarrow> error + hmm \<times> bool" where
  "AdjustProbsToBaumWelch LOG_ZERO lnsum h w =
     ebind (bw_edges lnsum h w (initial_sums LOG_ZERO h)) (\<lambda>a.
     ebind (NTimepoints h) (\<lambda>T.
     if n_emissions a \<noteq> T * N_states h
     then Inl (AssertionFailed ''n_emissions == NTimepoints() * _N_states'')
     else
       (let h1 = h\<lparr> state_freqs :=
                     map (\<lambda>j. dexp (dsub (new_state_freqs a ! j)
                                  (lnsum_total lnsum LOG_ZERO (N_states h) (new_state_freqs a))))
                       [0..<N_states h] \<rparr>
        in
        ebind (assign_row (\<lambda>j. dsub (new_init_probs a ! j)
                                 (lnsum_total lnsum LOG_ZERO (N_states h) (new_init_probs a)))
                 (N_states h) (init_probs h1, False)) (\<lambda>(ip, change).
        (let h2 = h1\<lparr> init_probs := ip \<rparr> in
         ebind (assign_table (\<lambda>i j. dsub (new_trans_probs a ! i ! j)
                                  (lnsum_total lnsum LOG_ZERO (N_states h) (new_trans_probs a ! i)))
                  (N_states h) (N_states h) (trans_probs h2, change)) (\<lambda>(tp, change1).
         (let h3 = h2\<lparr> trans_probs := tp \<rparr> in
          if is_discrete_HMM h then
            ebind (assign_table (\<lambda>i j. dsub (new_emiss_probs a ! i ! j)
                                     (lnsum_total lnsum LOG_ZERO (N_symbols h) (new_emiss_probs a ! i)))
                     (N_states h) (N_symbols h) (symbol_emiss_probs h3, change1))
              (\<lambda>(ep, change2). Inr (h3\<lparr> symbol_emiss_probs := ep \<rparr>, change2))
          else Inr (h3, change1))))))))"

section \<open>Training\<close>

text \<open>
  The two solvers \<^verbatim>\<open>WDAG::FindBestPath\<close> and \<^verbatim>\<open>WDAG::FindPosteriorProbs\<close> and the
  accessor \<^verbatim>\<open>WDAG::Alpha\<close> are not part of the sources at hand; they are parameters.
  A solver returns the graph with its derived fields set.  The logarithm \<open>log_c\<close> is
  passed on to the Viterbi re-estimator, and divides the log-likelihood of the
  Baum-Welch training by \<^verbatim>\<open>log(2)\<close>.
\<close>

definition ViterbiTraining ::
    "(wdag \<Rightarrow> wdag) \<Rightarrow> (double \<Rightarrow> double) \<Rightarrow> hmm \<Rightarrow> error + hmm \<times> bool \<times> int list" where
  "ViterbiTraining FindBestPath log_c h =
     (if \<not> HasAllData h then Inl (AssertionFailed ''HasAllData()'')
      else
        ebind (to_WDAG h) (\<lambda>wdag.
        ebind (AdjustProbsToViterbi log_c h (best_edges (FindBestPath wdag)))
          (\<lambda>(h', change, predicted_states).
        Inr (h'\<lparr> ran_viterbi := True \<rparr>, change, predicted_states))))"

definition BaumWelchTraining ::
    "(wdag \<Rightarrow> wdag) \<Rightarrow> (wdag \<Rightarrow> double) \<Rightarrow> double \<Rightarrow> (double \<Rightarrow> double \<Rightarrow> double)
       \<Rightarrow> (double \<Rightarrow> double) \<Rightarrow> hmm \<Rightarrow> error + hmm \<times> bool \<times> double" where
  "BaumWelchTraining FindPosteriorProbs Alpha LOG_ZERO lnsum log_c h =
     (if \<not> HasAllData h then Inl (AssertionFailed ''HasAllData()'')
      else
        ebind (to_WDAG h) (\<lambda>wdag.
        (let wdag1 = FindPosteriorProbs wdag in
         ebind (AdjustProbsToBaumWelch LOG_ZERO lnsum h wdag1) (\<lambda>(h', change).
         Inr (h'\<lparr> ran_baum_welch := True \<rparr>, change,
              ddiv (Alpha wdag1) (log_c (Finite 2)))))))"

section \<open>Definitions used in the statements\<close>

text \<open>
  The definitions of this section are not translations of the source.  They say, in
  closed form or in the words of the specification, what the loops of the source are
  proved to compute, and they give the inputs on which the theorems are tried.
\<close>

subsection \<open>Well-formed HMMs\<close>

text \<open>
  The dimensions that the setters establish (the source asserts them when a table is
  loaded) and, on a discrete HMM, the range of the observations, which the data model of
  the specification requires and which the source never checks.
\<close>

definition hmm_wf :: "hmm \<Rightarrow> bool" where
  "hmm_wf h =
     (length (init_probs h) = N_states h
      \<and> length (trans_probs h) = N_states h
      \<and> list_all (\<lambda>row. length row = N_states h) (trans_probs h)
      \<and> (if is_discrete_HMM h
          then length (symbol_emiss_probs h) = N_states h
               \<and> list_all (\<lambda>row. length row = N_symbols h) (symbol_emiss_probs h)
               \<and> list_all (\<lambda>obs. 0 \<le> obs \<and> obs < int (N_symbols h)) (observations h)
          else list_all (\<lambda>row. length row = N_states h) (time_emiss_probs h)))"

text \<open>
Timepoint \<open>t\<close> has an observation, or a row of the time emission matrix.
\<close>

definition timepoint_ok :: "hmm \<Rightarrow> nat \<Rightarrow> bool" where
  "timepoint_ok h t =
     (if is_discrete_HMM h then t < length (observations h) else t < length (time_emiss_probs h))"

subsection \<open>The storing loops in closed form\<close>

text \<open>
  What the storing loop leaves behind when it has run over \<open>m\<close> rows of \<open>n\<close> entries:
  the new probabilities in the positions visited, the old ones elsewhere, and the change
  flag.
\<close>

definition table_closed :: "(nat \<Rightarrow> nat \<Rightarrow> double) \<Rightarrow> nat \<Rightarrow> nat \<Rightarrow> double list list \<times> bool \<Rightarrow> double list list \<times> bool" where
  "table_closed f m n s =
     (map (\<lambda>i. map (f i) [0..<n] @ drop n (fst s ! i)) [0..<m] @ drop m (fst s),
      snd s \<or> (\<exists>i<m. \<exists>j<n. dneq (fst s ! i ! j) (f i j)))"

subsection \<open>Edge names by kind\<close>

text \<open>
  The kind of an edge name, as \<^verbatim>\<open>*iss >> type >> S1 >> S2\<close> reads it: \<^verbatim>\<open>S i\<close>,
  \<^verbatim>\<open>T i j\<close>, \<^verbatim>\<open>E i k\<close>, any emission edge, and the state that an emission edge names.
\<close>

definition is_S :: "nat \<Rightarrow> string \<Rightarrow> bool" where
  "is_S i name =
     (fst (parse_edge_name name) = Some CHR ''S'' \<and> fst (snd (parse_edge_name name)) = Some (int i))"

definition is_T :: "nat \<Rightarrow> nat \<Rightarrow> string \<Rightarrow> bool" where
  "is_T i j name = (parse_edge_name name = (Some CHR ''T'', Some (int i), Some (int j)))"

definition is_E_sym :: "nat \<Rightarrow> nat \<Rightarrow> string \<Rightarrow> bool" where
  "is_E_sym i k name = (parse_edge_name name = (Some CHR ''E'', Some (int i), Some (int k)))"

definition is_E :: "string \<Rightarrow> bool" where
  "is_E name = (fst (parse_edge_name name) = Some CHR ''E'')"

definition E_state :: "string \<Rightarrow> int" where
  "E_state name = the (fst (snd (parse_edge_name name)))"

text \<open>
  The number of names of a kind on a path, and the states that the emission edges of a
  path name, in the order of the path.
\<close>

definition count_names :: "(string \<Rightarrow> bool) \<Rightarrow> string list \<Rightarrow> int" where
  "count_names P path = int (length (filter P path))"

definition emitting_states :: "string list \<Rightarrow> int list" where
  "emitting_states path = map E_state (filter is_E path)"

text \<open>
  A name that the re-estimators can use: its type is known and its indices are within the
  tables of the HMM.
\<close>

definition name_ok :: "hmm \<Rightarrow> string \<Rightarrow> bool" where
  "name_ok h name =
     (case parse_edge_name name of (ty, S1, S2) \<Rightarrow>
        (ty = Some CHR ''S'' \<and> (\<exists>i<N_states h. S1 = Some (int i)))
        \<or> (ty = Some CHR ''T'' \<and> (\<exists>i<N_states h. S1 = Some (int i)) \<and> (\<exists>j<N_states h. S2 = Some (int j)))
        \<or> (ty = Some CHR ''E'' \<and> (\<exists>i<N_states h. S1 = Some (int i))
             \<and> (is_discrete_HMM h \<longrightarrow> (\<exists>k<N_symbols h. S2 = Some (int k))))
        \<or> ty = Some CHR ''F'')"

subsection \<open>Viterbi re-estimation in the words of the specification\<close>

text \<open>
  The new log-probability of outcome \<open>j\<close> among \<open>n\<close>, from the counts \<open>c\<close>: the
  negated logarithm of \<open>n\<close> when the counts are all zero, and otherwise the logarithm
  of the relative frequency, which is the logarithm of zero for an outcome that was not
  seen.  The logarithm is the one that the program calls.
\<close>

definition viterbi_spec :: "(double \<Rightarrow> double) \<Rightarrow> nat \<Rightarrow> (nat \<Rightarrow> int) \<Rightarrow> nat \<Rightarrow> double" where
  "viterbi_spec log_c n c j =
     (let total = (\<Sum>j' = 0..<n. c j') in
      if total = 0 then dneg (log_c (Finite (real n)))
      else log_c (Finite (real_of_int (c j) / real_of_int total)))"

text \<open>
The dimensions of the tally, and the HMM that a run with the tally \<open>v\<close> returns.
\<close>

definition tally_dims :: "hmm \<Rightarrow> viterbi_tally \<Rightarrow> bool" where
  "tally_dims h v =
     (length (trans_counts v) = N_states h \<and> list_all (\<lambda>r. length r = N_states h) (trans_counts v)
      \<and> length (emiss_counts v) = N_states h \<and> list_all (\<lambda>r. length r = N_symbols h) (emiss_counts v)
      \<and> length (state_counts v) = N_states h)"

definition viterbi_result :: "(double \<Rightarrow> double) \<Rightarrow> hmm \<Rightarrow> viterbi_tally \<Rightarrow> nat \<Rightarrow> hmm" where
  "viterbi_result log_c h v T =
     (let h1 = h\<lparr> state_freqs :=
                   map (\<lambda>i. ddiv (double_of_int (state_counts v ! i)) (double_of_nat T)) [0..<N_states h],
                 trans_probs :=
                   fst (table_closed (\<lambda>i. viterbi_new_prob log_c (N_states h) (trans_counts v ! i))
                         (N_states h) (N_states h) (trans_probs h, False)) \<rparr>
      in if is_discrete_HMM h
         then h1\<lparr> symbol_emiss_probs :=
                   fst (table_closed (\<lambda>i. viterbi_new_prob log_c (N_symbols h) (emiss_counts v ! i))
                         (N_states h) (N_symbols h) (symbol_emiss_probs h, False)) \<rparr>
         else h1)"

subsection \<open>The trellis in the words of the specification\<close>

text \<open>
  The node ids: the start node is 0; timepoint \<open>t\<close> has the layer \<open>A\<^sub>t\<close> of \<open>N\<close> nodes
  followed by the layer \<open>B\<^sub>t\<close> of \<open>N\<close> nodes; the end node comes last.
\<close>

definition A_id :: "nat \<Rightarrow> nat \<Rightarrow> nat \<Rightarrow> nat" where
  "A_id N t i = 1 + 2 * N * t + i"

definition B_id :: "nat \<Rightarrow> nat \<Rightarrow> nat \<Rightarrow> nat" where
  "B_id N t i = 1 + 2 * N * t + N + i"

definition end_id :: "nat \<Rightarrow> nat \<Rightarrow> nat" where
  "end_id N T = 1 + 2 * N * T"

text \<open>
A node as \<^verbatim>\<open>AddNode\<close> creates it, with the in-edges \<open>es\<close>.
\<close>

definition node_of :: "(nat \<times> string \<times> double) list \<Rightarrow> wdag_node" where
  "node_of es = \<lparr> in_edges = es, fw_prob = Finite 0, bw_prob = Finite 0 \<rparr>"

text \<open>
  The in-edges of \<open>A\<^sub>t[i]\<close>, of \<open>B\<^sub>t[i]\<close> and of the end node, and the whole graph for
  \<open>T\<close> timepoints.
\<close>

definition A_edges :: "hmm \<Rightarrow> nat \<Rightarrow> nat \<Rightarrow> (nat \<times> string \<times> double) list" where
  "A_edges h t i =
     (if t = 0 then [(0, name_S (int i), init_probs h ! i)]
      else map (\<lambda>i_prev. (B_id (N_states h) (t - 1) i_prev,
                            name_T (int i_prev) (int i),
                            trans_probs h ! i_prev ! i))
             [0..<N_states h])"

definition B_edges :: "hmm \<Rightarrow> nat \<Rightarrow> nat \<Rightarrow> (nat \<times> string \<times> double) list" where
  "B_edges h t i =
     (if is_discrete_HMM h
      then [(A_id (N_states h) t i,
             name_E (int i) (observations h ! t),
             symbol_emiss_probs h ! i ! nat (observations h ! t))]
      else [(A_id (N_states h) t i, name_E (int i) (- 1), time_emiss_probs h ! t ! i)])"

definition F_edges :: "hmm \<Rightarrow> nat \<Rightarrow> (nat \<times> string \<times> double) list" where
  "F_edges h T = map (\<lambda>i. (B_id (N_states h) (T - 1) i, ''F'', Finite 0)) [0..<N_states h]"

definition layer :: "hmm \<Rightarrow> nat \<Rightarrow> wdag_node list" where
  "layer h t =
     map (\<lambda>i. node_of (A_edges h t i)) [0..<N_states h]
     @ map (\<lambda>i. node_of (B_edges h t i)) [0..<N_states h]"

definition trellis :: "hmm \<Rightarrow> nat \<Rightarrow> wdag" where
  "trellis h T =
     \<lparr> nodes = node_of [] # concat (map (layer h) [0..<T]) @ [node_of (F_edges h T)],
       req_start = Some 0, req_end = Some (end_id (N_states h) T), best_edges = [] \<rparr>"

text \<open>
  The vectors \<^verbatim>\<open>stateA\<close> and \<^verbatim>\<open>stateB\<close> after \<open>n\<close> timepoints: null pointers at first,
  the ids of the last layer later.
\<close>

definition pointers :: "nat \<Rightarrow> (nat \<Rightarrow> nat \<Rightarrow> nat) \<Rightarrow> nat \<Rightarrow> nat option list" where
  "pointers N ident n =
     (if n = 0 then replicate N None else map (\<lambda>i. Some (ident (n - 1) i)) [0..<N])"

text \<open>
Every in-edge of a node comes from a node of the graph and has a usable name.
\<close>

definition node_ok :: "hmm \<Rightarrow> nat \<Rightarrow> wdag_node \<Rightarrow> bool" where
  "node_ok h n node = list_all (\<lambda>e. fst e < n \<and> name_ok h (fst (snd e))) (in_edges node)"

subsection \<open>Paths\<close>

text \<open>
  The edge names along a path of the graph from node \<open>u\<close> to node \<open>x\<close>, in the order
  of the path.  The specification says that the best-path solver returns the names on a
  path from the start node to the end node.
\<close>

inductive path_names :: "wdag \<Rightarrow> nat \<Rightarrow> nat \<Rightarrow> string list \<Rightarrow> bool" where
  path_nil: "path_names w u u []"
| path_snoc: "path_names w u p names \<Longrightarrow> c < length (nodes w) \<Longrightarrow>
     (p, name, wt) \<in> set (in_edges (nodes w ! c)) \<Longrightarrow> path_names w u c (names @ [name])"

text \<open>
  The number of emission edges between the start node and node \<open>x\<close> of a trellis over
  \<open>N\<close> states.
\<close>

definition depth :: "nat \<Rightarrow> nat \<Rightarrow> nat" where
  "depth N x = (if x = 0 then 0 else (x - 1 + N) div (2 * N))"

subsection \<open>Baum-Welch re-estimation in the words of the specification\<close>

text \<open>
  All edges of a graph, each with the id of its child, in the order in which the source
  visits them: node by node, and for each node its in-edges in turn.
\<close>

definition all_edges :: "wdag \<Rightarrow> (nat \<times> nat \<times> string \<times> double) list" where
  "all_edges w = concat (map (\<lambda>i. map (Pair i) (in_edges (nodes w ! i))) [0..<length (nodes w)])"

definition edge_name :: "nat \<times> nat \<times> string \<times> double \<Rightarrow> string" where
  "edge_name e = fst (snd (snd e))"

text \<open>
  The posterior log-mass of an edge from \<open>u\<close> to \<open>v\<close> with weight \<open>w\<close>:
  \<open>fw[u] + w + bw[v]\<close>.
\<close>

definition posterior :: "wdag \<Rightarrow> nat \<times> nat \<times> string \<times> double \<Rightarrow> double" where
  "posterior w e =
     (case e of (child, parent, name, weight) \<Rightarrow>
        dadd (dadd (fw_prob (nodes w ! parent)) weight) (bw_prob (nodes w ! child)))"

text \<open>
  The posteriors of the edges whose name satisfies \<open>Q\<close>, and what the four tables hold
  after the loop over the edges: the posterior of the start edge (the last one, should
  there be several; \<^verbatim>\<open>LOG_ZERO\<close> when there is none), and the \<^verbatim>\<open>lnsum\<close> of the
  posteriors of the transition edges, of the emission edges of a symbol, and of all
  emission edges of a state, each started at \<^verbatim>\<open>LOG_ZERO\<close>.
\<close>

definition posteriors :: "wdag \<Rightarrow> (string \<Rightarrow> bool) \<Rightarrow> double list" where
  "posteriors w Q = map (posterior w) (filter (\<lambda>e. Q (edge_name e)) (all_edges w))"

definition sum_init :: "double \<Rightarrow> wdag \<Rightarrow> nat \<Rightarrow> double" where
  "sum_init LOG_ZERO w i = last (LOG_ZERO # posteriors w (is_S i))"

definition sum_trans ::
    "(double \<Rightarrow> double \<Rightarrow> double) \<Rightarrow> double \<Rightarrow> wdag \<Rightarrow> nat \<Rightarrow> nat \<Rightarrow> double" where
  "sum_trans lnsum LOG_ZERO w i j = foldl lnsum LOG_ZERO (posteriors w (is_T i j))"

definition sum_emiss ::
    "(double \<Rightarrow> double \<Rightarrow> double) \<Rightarrow> double \<Rightarrow> wdag \<Rightarrow> nat \<Rightarrow> nat \<Rightarrow> double" where
  "sum_emiss lnsum LOG_ZERO w i k = foldl lnsum LOG_ZERO (posteriors w (is_E_sym i k))"

definition sum_state ::
    "(double \<Rightarrow> double \<Rightarrow> double) \<Rightarrow> double \<Rightarrow> wdag \<Rightarrow> nat \<Rightarrow> double" where
  "sum_state lnsum LOG_ZERO w i =
     foldl lnsum LOG_ZERO (posteriors w (\<lambda>name. is_E name \<and> E_state name = int i))"

text \<open>
The \<^verbatim>\<open>lnsum\<close> total of \<open>f 0\<close>, ..., \<open>f (n - 1)\<close>, started at \<^verbatim>\<open>LOG_ZERO\<close>.
\<close>

definition lnsum_over ::
    "(double \<Rightarrow> double \<Rightarrow> double) \<Rightarrow> double \<Rightarrow> nat \<Rightarrow> (nat \<Rightarrow> double) \<Rightarrow> double" where
  "lnsum_over lnsum LOG_ZERO n f = foldl lnsum LOG_ZERO (map f [0..<n])"

text \<open>
  The dimensions of the sums, what one edge does to the cells \<open>(i)\<close>, \<open>(i, j)\<close> and
  \<open>(i, k)\<close> of the sums, and the HMM that a run with the sums \<open>a\<close> returns.
\<close>

definition bw_dims :: "hmm \<Rightarrow> bw_sums \<Rightarrow> bool" where
  "bw_dims h a =
     (length (new_init_probs a) = N_states h
      \<and> length (new_trans_probs a) = N_states h
      \<and> list_all (\<lambda>r. length r = N_states h) (new_trans_probs a)
      \<and> length (new_emiss_probs a) = N_states h
      \<and> list_all (\<lambda>r. length r = N_symbols h) (new_emiss_probs a)
      \<and> length (new_state_freqs a) = N_states h)"

definition bw_step_spec ::
    "(double \<Rightarrow> double \<Rightarrow> double) \<Rightarrow> hmm \<Rightarrow> string \<Rightarrow> double \<Rightarrow> bw_sums \<Rightarrow> bw_sums \<Rightarrow> nat \<Rightarrow> nat \<Rightarrow> nat \<Rightarrow> bool" where
  "bw_step_spec lnsum h name P a a' i j k =
     (bw_dims h a'
      \<and> (i < N_states h \<longrightarrow>
           new_init_probs a' ! i = (if is_S i name then P else new_init_probs a ! i))
      \<and> (i < N_states h \<longrightarrow> j < N_states h \<longrightarrow>
           new_trans_probs a' ! i ! j
             = (if is_T i j name then lnsum (new_trans_probs a ! i ! j) P
                else new_trans_probs a ! i ! j))
      \<and> (i < N_states h \<longrightarrow> k < N_symbols h \<longrightarrow>
           new_emiss_probs a' ! i ! k
             = (if is_discrete_HMM h \<and> is_E_sym i k name then lnsum (new_emiss_probs a ! i ! k) P
                else new_emiss_probs a ! i ! k))
      \<and> (i < N_states h \<longrightarrow>
           new_state_freqs a' ! i
             = (if is_E name \<and> E_state name = int i then lnsum (new_state_freqs a ! i) P
                else new_state_freqs a ! i))
      \<and> n_emissions a' = n_emissions a + (if is_E name then 1 else 0))"

definition bw_result :: "double \<Rightarrow> (double \<Rightarrow> double \<Rightarrow> double) \<Rightarrow> hmm \<Rightarrow> bw_sums \<Rightarrow> hmm" where
  "bw_result LOG_ZERO lnsum h a =
     (let h3 = h\<lparr> state_freqs :=
                     map (\<lambda>j. dexp (dsub (new_state_freqs a ! j)
                                  (lnsum_total lnsum LOG_ZERO (N_states h) (new_state_freqs a))))
                       [0..<N_states h],
                   init_probs :=
                     map (\<lambda>j. dsub (new_init_probs a ! j)
                                 (lnsum_total lnsum LOG_ZERO (N_states h) (new_init_probs a)))
                       [0..<N_states h] @ drop (N_states h) (init_probs h),
                   trans_probs :=
                     fst (table_closed (\<lambda>i j. dsub (new_trans_probs a ! i ! j)
                                  (lnsum_total lnsum LOG_ZERO (N_states h) (new_trans_probs a ! i)))
                           (N_states h) (N_states h) (trans_probs h, False)) \<rparr>
      in if is_discrete_HMM h
         then h3\<lparr> symbol_emiss_probs :=
                     fst (table_closed (\<lambda>i j. dsub (new_emiss_probs a ! i ! j)
                                     (lnsum_total lnsum LOG_ZERO (N_symbols h) (new_emiss_probs a ! i)))
                           (N_states h) (N_symbols h) (symbol_emiss_probs h, False)) \<rparr>
         else h3)"

subsection \<open>Shifted matrices\<close>

text \<open>
  Row \<open>t\<close> of the matrix with \<open>c\<^sub>t\<close> added to each entry; a matrix of finite numbers as a
  matrix of doubles; and a matrix none of whose entries compares equal to \<^verbatim>\<open>LOG_ZERO\<close>.
\<close>

definition shift_rows :: "real list \<Rightarrow> real list list \<Rightarrow> real list list" where
  "shift_rows cs rs = map (\<lambda>(c, row). map (\<lambda>x. x + c) row) (zip cs rs)"

definition finite_matrix :: "real list list \<Rightarrow> double list list" where
  "finite_matrix rs = map (map Finite) rs"

definition no_LOG_ZERO :: "double \<Rightarrow> real list list \<Rightarrow> bool" where
  "no_LOG_ZERO LOG_ZERO rs = list_all (list_all (\<lambda>x. \<not> deq (Finite x) LOG_ZERO)) rs"

subsection \<open>The log-sum and the forward pass of the specification\<close>

text \<open>
  Modelled from the spec: \<^verbatim>\<open>lnsum\<close> is defined in a header that is not part of the
  sources at hand.  The specification defines \<open>lnsum(a, b) = log(exp(a) + exp(b))\<close>,
  computed stably; with exact arithmetic the stable form has this value.  The theorems
  below hold for every function \<open>lnsum\<close>; this one is used on the examples.
\<close>

definition lnsum_exact :: "double \<Rightarrow> double \<Rightarrow> double" where
  "lnsum_exact a b = dlog (dadd (dexp a) (dexp b))"

text \<open>
  Modelled from the spec: \<^verbatim>\<open>WDAG::FindPosteriorProbs\<close> and \<^verbatim>\<open>WDAG::Alpha\<close> are not part
  of the sources at hand.  The specification says: \<open>fw\<close> of the start node is 0, \<open>fw\<close>
  of any other node is the \<open>lnsum\<close> over its in-edges of \<open>fw[parent] + weight\<close>, taken
  in the order of the ids, and \<open>alpha\<close> is \<open>fw\<close> of the end node.
\<close>

definition forward_probs :: "(double \<Rightarrow> double \<Rightarrow> double) \<Rightarrow> double \<Rightarrow> wdag \<Rightarrow> double list" where
  "forward_probs lnsum LOG_ZERO w =
     foldl (\<lambda>fw i. fw @ [if req_start w = Some i then Finite 0
                           else foldl lnsum LOG_ZERO
                                  (map (\<lambda>(u, name, wt). dadd (fw ! u) wt) (in_edges (nodes w ! i)))])
       [] [0..<length (nodes w)]"

definition Alpha_spec :: "(double \<Rightarrow> double \<Rightarrow> double) \<Rightarrow> double \<Rightarrow> wdag \<Rightarrow> double" where
  "Alpha_spec lnsum LOG_ZERO w = forward_probs lnsum LOG_ZERO w ! the (req_end w)"

subsection \<open>The logarithm rounded to the nearest double\<close>

text \<open>
  The value that IEEE 754 arithmetic returns for a real result \<open>x\<close> in the range of the
  normal numbers of the format \<^verbatim>\<open>binary64\<close>: the nearest multiple of the unit in the last
  place, which is \<open>2\<^bsup>e - 52\<^esup>\<close> when \<open>2\<^sup>e \<le> \<bar>x\<bar> < 2\<^bsup>e + 1\<^esup>\<close>, and of two nearest
  multiples the even one.  (Overflow and the subnormal numbers are not modelled.)
\<close>

definition round_to_double :: "real \<Rightarrow> real" where
  "round_to_double x =
     (if x = 0 then 0
      else
        (let u = 2 powr (of_int \<lfloor>log 2 \<bar>x\<bar>\<rfloor> - 52);
             y = x / u;
             f = \<lfloor>y\<rfloor>
         in if y - of_int f < 1 / 2 \<or> (y - of_int f = 1 / 2 \<and> even f)
            then of_int f * u else (of_int f + 1) * u))"

text \<open>
  The logarithm and the quotient of doubles with their results rounded so.  For the
  quotient this is what IEEE 754 prescribes; for the logarithm it is the best that a
  library can return, and it is what the C library returns at the arguments of the
  example below (\<^verbatim>\<open>log(7.0)\<close> is \<^verbatim>\<open>0x1.f2272ae325a57p+0\<close> and \<^verbatim>\<open>log(1.0/7)\<close> is
  \<^verbatim>\<open>-0x1.f2272ae325a58p+0\<close>).
\<close>

fun log_rn :: "double \<Rightarrow> double" where
  "log_rn (Finite x) =
     (if 0 < x then Finite (round_to_double (ln x)) else if x = 0 then MinusInf else NaN)"
| "log_rn PlusInf = PlusInf"
| "log_rn MinusInf = NaN"
| "log_rn NaN = NaN"

definition div_rn :: "double \<Rightarrow> double \<Rightarrow> double" where
  "div_rn a b = (case ddiv a b of Finite q \<Rightarrow> Finite (round_to_double q) | q \<Rightarrow> q)"

text \<open>
  Bounds of the exponential series in integer arithmetic, with which the logarithm of 7
  is enclosed.  For \<open>x = A / D\<close> and a term \<open>t\<close> that is the \<open>k\<close>-th term \<open>x\<^sup>k / k!\<close>
  of the series scaled by some factor, \<open>taylor_lo\<close> sums \<open>n\<close> terms from the \<open>k\<close>-th on,
  each rounded down, and \<open>taylor_hi\<close> sums them rounded up and adds nine times the
  next term for the remainder of the series.
\<close>

fun taylor_lo :: "int \<Rightarrow> int \<Rightarrow> int \<Rightarrow> nat \<Rightarrow> int \<Rightarrow> int" where
  "taylor_lo A D k 0 t = 0"
| "taylor_lo A D k (Suc n) t = t + taylor_lo A D (k + 1) n (t * A div (D * (k + 1)))"

fun taylor_hi :: "int \<Rightarrow> int \<Rightarrow> int \<Rightarrow> nat \<Rightarrow> int \<Rightarrow> int" where
  "taylor_hi A D k 0 t = 9 * t"
| "taylor_hi A D k (Suc n) t = t + taylor_hi A D (k + 1) n (t * A div (D * (k + 1)) + 1)"

subsection \<open>Examples\<close>

text \<open>
  A continuous HMM with two absorbing states that starts in state 0, before and after
  the time emission matrix of two timepoints is loaded; the edge names of the path
  through state 0; and the trellis of the HMM.
\<close>

definition cont_hmm :: hmm where
  "cont_hmm = (HMM 2 0)\<lparr> init_probs := [Finite 0, MinusInf],
       trans_probs := [[Finite 0, MinusInf], [MinusInf, Finite 0]],
       has_init_probs := True, has_trans_probs := True \<rparr>"

definition ex_hmm :: hmm where
  "ex_hmm = (HMM 2 0)\<lparr> init_probs := [Finite 0, MinusInf],
       trans_probs := [[Finite 0, MinusInf], [MinusInf, Finite 0]],
       has_init_probs := True, has_trans_probs := True,
       time_emiss_probs := [[Finite 0, Finite (- 1)], [Finite 0, Finite (- 1)]],
       has_time_emiss_probs := True \<rparr>"

definition ex_path :: "string list" where
  "ex_path = [''S 0'', ''E 0 -1'', ''T 0 0'', ''E 0 -1'', ''F'']"

text \<open>
  A continuous HMM with seven states and one timepoint, whose transition table holds
  \<^verbatim>\<open>log(1.0/7)\<close> throughout, and the path through state 0.
\<close>

definition seven_hmm :: hmm where
  "seven_hmm = (HMM 7 0)\<lparr> init_probs := Finite 0 # replicate 6 MinusInf,
       trans_probs := replicate 7 (replicate 7 (log_rn (div_rn (Finite 1) (Finite 7)))),
       has_init_probs := True, has_trans_probs := True,
       time_emiss_probs := [replicate 7 (Finite 0)],
       has_time_emiss_probs := True \<rparr>"

definition seven_path :: "string list" where
  "seven_path = [''S 0'', ''E 0 -1'', ''F'']"

definition ex_trellis :: wdag where
  "ex_trellis =
     \<lparr> nodes =
        [\<lparr>in_edges = [], fw_prob = Finite 0, bw_prob = Finite 0\<rparr>,
         \<lparr>in_edges = [(0, ''S 0'', Finite 0)], fw_prob = Finite 0, bw_prob = Finite 0\<rparr>,
         \<lparr>in_edges = [(0, ''S 1'', MinusInf)], fw_prob = Finite 0, bw_prob = Finite 0\<rparr>,
         \<lparr>in_edges = [(1, ''E 0 -1'', Finite 0)], fw_prob = Finite 0, bw_prob = Finite 0\<rparr>,
         \<lparr>in_edges = [(2, ''E 1 -1'', Finite (- 1))], fw_prob = Finite 0, bw_prob = Finite 0\<rparr>,
         \<lparr>in_edges = [(3, ''T 0 0'', Finite 0), (4, ''T 1 0'', MinusInf)],
            fw_prob = Finite 0, bw_prob = Finite 0\<rparr>,
         \<lparr>in_edges = [(3, ''T 0 1'', MinusInf), (4, ''T 1 1'', Finite 0)],
            fw_prob = Finite 0, bw_prob = Finite 0\<rparr>,
         \<lparr>in_edges = [(5, ''E 0 -1'', Finite 0)], fw_prob = Finite 0, bw_prob = Finite 0\<rparr>,
         \<lparr>in_edges = [(6, ''E 1 -1'', Finite (- 1))], fw_prob = Finite 0, bw_prob = Finite 0\<rparr>,
         \<lparr>in_edges = [(7, ''F'', Finite 0), (8, ''F'', Finite 0)],
            fw_prob = Finite 0, bw_prob = Finite 0\<rparr>],
       req_start = Some 0, req_end = Some 9, best_edges = [] \<rparr>"

text \<open>
  A discrete HMM with two absorbing states, each emitting its own symbol, that starts in
  either state with probability 1/2 and observes symbol 0 twice; the edges of its
  trellis; the trellis as \<^verbatim>\<open>to_WDAG\<close> builds it; and the trellis with the forward and
  backward log-masses of every node filled in.
\<close>

definition coin_hmm :: hmm where
  "coin_hmm = (HMM 2 2)\<lparr>
       init_probs := [Finite (ln (1 / 2)), Finite (ln (1 / 2))],
       trans_probs := [[Finite 0, MinusInf], [MinusInf, Finite 0]],
       has_init_probs := True, has_trans_probs := True,
       symbol_emiss_probs := [[Finite 0, MinusInf], [MinusInf, Finite 0]],
       observations := [0, 0],
       has_symbol_emiss_probs := True, has_observations := True \<rparr>"

definition coin_edges :: "(nat \<times> string \<times> double) list list" where
  "coin_edges =
     [[],
      [(0, ''S 0'', Finite (ln (1 / 2)))],
      [(0, ''S 1'', Finite (ln (1 / 2)))],
      [(1, ''E 0 0'', Finite 0)],
      [(2, ''E 1 0'', MinusInf)],
      [(3, ''T 0 0'', Finite 0), (4, ''T 1 0'', MinusInf)],
      [(3, ''T 0 1'', MinusInf), (4, ''T 1 1'', Finite 0)],
      [(5, ''E 0 0'', Finite 0)],
      [(6, ''E 1 0'', MinusInf)],
      [(7, ''F'', Finite 0), (8, ''F'', Finite 0)]]"

definition coin_trellis :: wdag where
  "coin_trellis =
     \<lparr> nodes = map node_of coin_edges,
       req_start = Some 0, req_end = Some 9, best_edges = [] \<rparr>"

definition coin_solved :: wdag where
  "coin_solved =
     \<lparr> nodes =
         map (\<lambda>(es, fw, bw). \<lparr> in_edges = es, fw_prob = fw, bw_prob = bw \<rparr>)
           (zip coin_edges
              [(Finite 0, Finite (ln (1 / 2))),
               (Finite (ln (1 / 2)), Finite 0),
               (Finite (ln (1 / 2)), MinusInf),
               (Finite (ln (1 / 2)), Finite 0),
               (MinusInf, MinusInf),
               (Finite (ln (1 / 2)), Finite 0),
               (MinusInf, MinusInf),
               (Finite (ln (1 / 2)), Finite 0),
               (MinusInf, Finite 0),
               (Finite (ln (1 / 2)), Finite 0)]),
       req_start = Some 0, req_end = Some 9, best_edges = [] \<rparr>"

section \<open>Running the model on an input\<close>

text \<open>
  The equations with which the simplifier runs the re-estimators and the trellis builder
  on a given input.
\<close>

lemmas eval_simps = HMM_def tally_edge_def parse_edge_name_def extract_char_def extract_int_def
  is_space_def is_digit_def digit_val_def known_type_def incr2_def incr1_def index_def ebind_def initial_tally_def
  NTimepoints_def HasAllData_def is_discrete_HMM_def assign_table_def assign_table_step_def assign_row_def assign_step_def vec_get_def
  viterbi_new_prob_def double_of_int_def double_of_nat_def dneq_def deq_def numeral_2_eq_2 upt_rec[of _ "numeral _"] upt_rec[of _ "Suc _"]

lemmas build_simps = to_WDAG_def add_timepoint_def add_A_def add_B_def emission_def AddNode_def AddEdge_def
  SetReqStart_def SetReqEnd_def empty_WDAG_def name_S_def name_T_def name_E_def sprintf_d_def
  string_of_nat.simps digit_char_def

section \<open>Loading data: the setters\<close>

lemma store_row_LOG_ZERO:
  "p \<in> set row \<Longrightarrow> deq p LOG_ZERO \<Longrightarrow>
   store_row LOG_ZERO mx row = Inl (AssertionFailed ''probs[i][j] != LOG_ZERO'')"
proof (induction row)
  case Nil
  then show ?case by simp
next
  case (Cons a row)
  show ?case
  proof (cases "deq a LOG_ZERO")
    case True
    then show ?thesis by (simp add: dneq_def)
  next
    case False
    with Cons.prems have "p \<in> set row" by auto
    with Cons have "store_row LOG_ZERO mx row = Inl (AssertionFailed ''probs[i][j] != LOG_ZERO'')"
      by simp
    with False show ?thesis by (simp add: dneq_def)
  qed
qed

lemma store_row_ok:
  "\<forall>p\<in>set row. \<not> deq p LOG_ZERO \<Longrightarrow>
   store_row LOG_ZERO mx row = Inr (map (\<lambda>p. dsub p mx) row)"
  by (induction row) (auto simp: dneq_def)

lemma max_element_Some: "row \<noteq> [] \<Longrightarrow> \<exists>mx. max_element row = Some mx"
  by (cases row) auto

lemma store_rows_LOG_ZERO:
  "row \<in> set probs \<Longrightarrow> p \<in> set row \<Longrightarrow> deq p LOG_ZERO \<Longrightarrow> isl (store_rows LOG_ZERO probs)"
proof (induction probs)
  case Nil
  then show ?case by simp
next
  case (Cons a probs)
  show ?case
  proof (cases "row = a")
    case True
    with Cons.prems show ?thesis
      by (auto simp: store_row_LOG_ZERO split: option.splits)
  next
    case False
    with Cons have "isl (store_rows LOG_ZERO probs)" by auto
    then show ?thesis by (auto split: option.splits sum.splits)
  qed
qed

lemma store_rows_ok:
  "\<forall>row\<in>set probs. row \<noteq> [] \<and> (\<forall>p\<in>set row. \<not> deq p LOG_ZERO) \<Longrightarrow>
   store_rows LOG_ZERO probs = Inr (map (\<lambda>row. map (\<lambda>p. dsub p (the (max_element row))) row) probs)"
proof (induction probs)
  case Nil
  then show ?case by simp
next
  case (Cons a probs)
  then obtain mx where "max_element a = Some mx" using max_element_Some[of a] by auto
  with Cons show ?case by (simp add: store_row_ok)
qed

lemma store_rows_length:
  "store_rows LOG_ZERO probs = Inr tbl \<Longrightarrow> length tbl = length probs"
  by (induction probs arbitrary: tbl) (auto split: option.splits sum.splits)

lemma store_rows_LOG_ZERO_error:
  "row \<in> set probs \<Longrightarrow> p \<in> set row \<Longrightarrow> deq p LOG_ZERO \<Longrightarrow> \<forall>r\<in>set probs. r \<noteq> [] \<Longrightarrow>
   store_rows LOG_ZERO probs = Inl (AssertionFailed ''probs[i][j] != LOG_ZERO'')"
proof (induction probs)
  case Nil
  then show ?case by simp
next
  case (Cons a probs)
  from Cons.prems obtain mx where mx: "max_element a = Some mx"
    using max_element_Some[of a] by auto
  show ?case
  proof (cases "\<exists>q\<in>set a. deq q LOG_ZERO")
    case True
    then show ?thesis using mx by (auto simp: store_row_LOG_ZERO)
  next
    case False
    with Cons.prems have "row \<in> set probs" by auto
    with Cons have "store_rows LOG_ZERO probs = Inl (AssertionFailed ''probs[i][j] != LOG_ZERO'')"
      by simp
    with False mx show ?thesis by (simp add: store_row_ok)
  qed
qed

text \<open>
  Claim C6.  \<^verbatim>\<open>SetTimeEmissProbs\<close> rejects every matrix that has an entry equal to
  \<^verbatim>\<open>LOG_ZERO\<close>: the call fails, so no state with the table marked as loaded results;
  on a continuous HMM and a matrix of the right row length the failure is the assertion
  on the entries.  A non-empty matrix of the right shape with no such entry is accepted:
  each row is stored with its maximum subtracted and the table is marked as loaded.
\<close>

theorem SetTimeEmissProbs_LOG_ZERO:
  "(row \<in> set probs \<longrightarrow> p \<in> set row \<longrightarrow> deq p LOG_ZERO \<longrightarrow>
      isl (SetTimeEmissProbs LOG_ZERO h probs)
      \<and> (\<not> is_discrete_HMM h \<longrightarrow> (\<forall>r\<in>set probs. length r = N_states h) \<longrightarrow>
           SetTimeEmissProbs LOG_ZERO h probs =
             Inl (AssertionFailed ''probs[i][j] != LOG_ZERO'')))
   \<and> (\<not> is_discrete_HMM h \<longrightarrow> probs \<noteq> [] \<longrightarrow> 0 < N_states h \<longrightarrow>
        (\<forall>r\<in>set probs. length r = N_states h) \<longrightarrow>
        (\<forall>r\<in>set probs. \<forall>q\<in>set r. \<not> deq q LOG_ZERO) \<longrightarrow>
        SetTimeEmissProbs LOG_ZERO h probs =
          Inr (h\<lparr> time_emiss_probs :=
                    map (\<lambda>r. map (\<lambda>q. dsub q (the (max_element r))) r) probs,
                  has_time_emiss_probs := True \<rparr>))"
proof (intro conjI impI)
  assume a: "row \<in> set probs" "p \<in> set row" "deq p LOG_ZERO"
  then show "isl (SetTimeEmissProbs LOG_ZERO h probs)"
    using store_rows_LOG_ZERO[OF a]
    by (auto simp: SetTimeEmissProbs_def split: sum.splits)
next
  assume a: "row \<in> set probs" "p \<in> set row" "deq p LOG_ZERO"
    and c: "\<not> is_discrete_HMM h" and s: "\<forall>r\<in>set probs. length r = N_states h"
  from a s have "N_states h \<noteq> 0" using length_pos_if_in_set[of p row] by auto
  with s have ne: "\<forall>r\<in>set probs. r \<noteq> []" by auto
  from a have "probs \<noteq> []" by auto
  moreover from s have "\<not> list_ex (\<lambda>row. length row \<noteq> N_states h) probs"
    by (simp add: list_ex_iff)
  ultimately show "SetTimeEmissProbs LOG_ZERO h probs =
             Inl (AssertionFailed ''probs[i][j] != LOG_ZERO'')"
    using c store_rows_LOG_ZERO_error[OF a ne] by (simp add: SetTimeEmissProbs_def)
next
  assume c: "\<not> is_discrete_HMM h" and n: "probs \<noteq> []" and p: "0 < N_states h"
    and s: "\<forall>r\<in>set probs. length r = N_states h"
    and z: "\<forall>r\<in>set probs. \<forall>q\<in>set r. \<not> deq q LOG_ZERO"
  from s p have ne: "\<forall>r\<in>set probs. r \<noteq> [] \<and> (\<forall>q\<in>set r. \<not> deq q LOG_ZERO)"
    using z by auto
  from s have "\<not> list_ex (\<lambda>row. length row \<noteq> N_states h) probs"
    by (simp add: list_ex_iff)
  then show "SetTimeEmissProbs LOG_ZERO h probs =
          Inr (h\<lparr> time_emiss_probs :=
                    map (\<lambda>r. map (\<lambda>q. dsub q (the (max_element r))) r) probs,
                  has_time_emiss_probs := True \<rparr>)"
    using c n store_rows_ok[OF ne] by (simp add: SetTimeEmissProbs_def)
qed

text \<open>
  The theorem of claim C6 at a rejected and at an accepted one-row matrix.
\<close>

theorem SetTimeEmissProbs_LOG_ZERO_witness:
  "isl (SetTimeEmissProbs MinusInf (HMM 2 0) [[Finite 0, MinusInf]])
   \<and> SetTimeEmissProbs MinusInf (HMM 2 0) [[Finite 0, MinusInf]] =
       Inl (AssertionFailed ''probs[i][j] != LOG_ZERO'')
   \<and> SetTimeEmissProbs MinusInf (HMM 2 0) [[Finite 1, Finite 3]] =
       Inr ((HMM 2 0)\<lparr> time_emiss_probs := [[Finite (- 2), Finite 0]],
                        has_time_emiss_probs := True \<rparr>)"
  using SetTimeEmissProbs_LOG_ZERO[of "[Finite 0, MinusInf]" "[[Finite 0, MinusInf]]"
          MinusInf MinusInf "HMM 2 0"]
        SetTimeEmissProbs_LOG_ZERO[of "[]" "[[Finite 1, Finite 3]]" MinusInf MinusInf "HMM 2 0"]
  by (simp add: deq_def HMM_def is_discrete_HMM_def dsub_def)

text \<open>
  Claim C10.  \<^verbatim>\<open>SetTimeEmissProbs\<close> fails on a matrix with no rows (on a continuous
  HMM by the assertion \<^verbatim>\<open>!probs.empty()\<close>), so whenever the call succeeds the table is
  marked as loaded and the number of timepoints, the number of its rows, is at least 1.
\<close>

theorem SetTimeEmissProbs_empty:
  "isl (SetTimeEmissProbs LOG_ZERO h [])
   \<and> (\<not> is_discrete_HMM h \<longrightarrow>
        SetTimeEmissProbs LOG_ZERO h [] = Inl (AssertionFailed ''!probs.empty()''))
   \<and> (SetTimeEmissProbs LOG_ZERO h probs = Inr h' \<longrightarrow>
        has_time_emiss_probs h' \<and> length (time_emiss_probs h') = length probs
        \<and> 1 \<le> length (time_emiss_probs h')
        \<and> (HasAllData h' \<longrightarrow>
             NTimepoints h' = Inr (length probs) \<and> 1 \<le> length probs))"
proof (intro conjI impI)
  show "isl (SetTimeEmissProbs LOG_ZERO h [])" by (simp add: SetTimeEmissProbs_def)
  show "\<not> is_discrete_HMM h \<Longrightarrow>
        SetTimeEmissProbs LOG_ZERO h [] = Inl (AssertionFailed ''!probs.empty()'')"
    by (simp add: SetTimeEmissProbs_def)
next
  assume r: "SetTimeEmissProbs LOG_ZERO h probs = Inr h'"
  then obtain tbl where t: "store_rows LOG_ZERO probs = Inr tbl"
    and h': "h' = h\<lparr> time_emiss_probs := tbl, has_time_emiss_probs := True \<rparr>"
    and ne: "probs \<noteq> []" and c: "\<not> is_discrete_HMM h"
    by (auto simp: SetTimeEmissProbs_def split: if_splits sum.splits)
  from t have len: "length tbl = length probs" by (rule store_rows_length)
  from ne have pos: "1 \<le> length probs" by (cases probs) auto
  show "has_time_emiss_probs h'" using h' by simp
  show "length (time_emiss_probs h') = length probs" using h' len by simp
  show "1 \<le> length (time_emiss_probs h')" using h' len pos by simp
  show "1 \<le> length probs" by (rule pos)
  show "HasAllData h' \<Longrightarrow> NTimepoints h' = Inr (length probs)"
    using h' len c by (simp add: NTimepoints_def is_discrete_HMM_def)
qed

text \<open>
  The theorem of claim C10 at the empty matrix and at a matrix with one row.
\<close>

theorem SetTimeEmissProbs_empty_witness:
  "isl (SetTimeEmissProbs MinusInf (HMM 2 0) [])
   \<and> SetTimeEmissProbs MinusInf (HMM 2 0) [] = Inl (AssertionFailed ''!probs.empty()'')
   \<and> has_time_emiss_probs ((HMM 2 0)\<lparr> time_emiss_probs := [[Finite (- 2), Finite 0]],
                        has_time_emiss_probs := True \<rparr>)
   \<and> length (time_emiss_probs ((HMM 2 0)\<lparr> time_emiss_probs := [[Finite (- 2), Finite 0]],
                        has_time_emiss_probs := True \<rparr>)) = length [[Finite 1, Finite 3]]"
  using SetTimeEmissProbs_empty[of MinusInf "HMM 2 0" "[[Finite 1, Finite 3]]"
      "(HMM 2 0)\<lparr> time_emiss_probs := [[Finite (- 2), Finite 0]],
                        has_time_emiss_probs := True \<rparr>"]
  by (simp add: SetTimeEmissProbs_def deq_def dneq_def HMM_def is_discrete_HMM_def dsub_def)

text \<open>
  Claim C5, as stated, fails: no function checks the range of an observation.  On the
  discrete example, which has two symbols, the observation 7 is loaded without any
  error; \<^verbatim>\<open>to_WDAG\<close> then reads \<^verbatim>\<open>_symbol_emiss_probs[i][7]\<close>, outside the row, which
  no assertion guards: the behaviour of the source is undefined there, not an error that
  reaches the caller.
\<close>

theorem SetObservations_out_of_range_accepted:
  "\<not> (0 \<le> (7::int) \<and> 7 < int (N_symbols coin_hmm))
   \<and> SetObservations coin_hmm [7, 0] =
       Inr (coin_hmm\<lparr> observations := [7, 0], has_observations := True \<rparr>)
   \<and> to_WDAG (coin_hmm\<lparr> observations := [7, 0], has_observations := True \<rparr>) =
       Inl (UndefinedBehaviour ''vector index out of range'')"
  by (simp add: SetObservations_def coin_hmm_def build_simps eval_simps)

text \<open>
  Claim C5, amended.  On a discrete HMM \<^verbatim>\<open>SetObservations\<close> accepts every vector of
  observations, whatever its values: it stores the vector unchanged and marks the
  observations as loaded.  (The only assertion of the function is that the HMM is
  discrete.)
\<close>

theorem SetObservations_accepts:
  "is_discrete_HMM h \<Longrightarrow>
   SetObservations h obs = Inr (h\<lparr> observations := obs, has_observations := True \<rparr>)"
  by (simp add: SetObservations_def)

text \<open>
  The amended claim C5 at a discrete HMM with two states and two symbols.
\<close>

theorem SetObservations_accepts_witness:
  "is_discrete_HMM (HMM 2 2)
   \<and> SetObservations (HMM 2 2) [0, 1, 1] =
       Inr ((HMM 2 2)\<lparr> observations := [0, 1, 1], has_observations := True \<rparr>)"
  using SetObservations_accepts[of "HMM 2 2" "[0, 1, 1]"]
  by (simp add: HMM_def is_discrete_HMM_def)

section \<open>Sequencing, loops and vectors\<close>

lemma ebind_Inr [simp]: "ebind (Inr x) f = f x"
  by (simp add: ebind_def)

lemma ebind_Inl [simp]: "ebind (Inl e) f = Inl e"
  by (simp add: ebind_def)

lemma ebind_eq_Inr: "ebind m f = Inr y \<longleftrightarrow> (\<exists>x. m = Inr x \<and> f x = Inr y)"
  by (cases m) auto

lemma foldM_append: "foldM f (xs @ ys) s = ebind (foldM f xs s) (foldM f ys)"
proof (induction xs arbitrary: s)
  case Nil
  show ?case by simp
next
  case (Cons x xs)
  show ?case by (cases "f x s") (simp_all add: Cons)
qed

lemma foldM_snoc: "foldM f (xs @ [x]) s = ebind (foldM f xs s) (f x)"
proof -
  have "foldM f [x] = f x"
  proof
    fix t show "foldM f [x] t = f x t" by (cases "f x t") simp_all
  qed
  then show ?thesis by (simp add: foldM_append)
qed

lemma vec_get_Inr [simp]: "i < length xs \<Longrightarrow> vec_get xs i = Inr (xs ! i)"
  by (simp add: vec_get_def)

lemma vec_get_eq_Inr: "vec_get xs i = Inr x \<longleftrightarrow> i < length xs \<and> x = xs ! i"
  by (auto simp: vec_get_def)

lemma index_eq_Inr: "index v n = Inr k \<longleftrightarrow> (\<exists>i. v = Some i \<and> 0 \<le> i \<and> i < int n \<and> k = nat i)"
  by (auto simp: index_def split: option.splits)

lemma index_Some_nat [simp]: "k < n \<Longrightarrow> index (Some (int k)) n = Inr k"
  by (simp add: index_def)

text \<open>Storing loops in closed form.\<close>

lemma assign_row_closed:
  "n \<le> length row \<Longrightarrow>
   assign_row f n (row, change) =
     Inr (map f [0..<n] @ drop n row, change \<or> (\<exists>j<n. dneq (row ! j) (f j)))"
proof (induction n)
  case 0
  show ?case by (simp add: assign_row_def)
next
  case (Suc n)
  then have n: "n < length row" by simp
  have IH: "foldM (assign_step f) [0..<n] (row, change) =
     Inr (map f [0..<n] @ drop n row, change \<or> (\<exists>j<n. dneq (row ! j) (f j)))"
    using Suc by (simp add: assign_row_def)
  have upd: "(map f [0..<n] @ drop n row)[n := f n] = map f [0..<n] @ f n # drop (Suc n) row"
    using n by (simp add: list_update_append Cons_nth_drop_Suc[symmetric])
  have old: "(map f [0..<n] @ drop n row) ! n = row ! n"
    using n by (simp add: nth_append)
  have ex: "(\<exists>j<Suc n. dneq (row ! j) (f j)) \<longleftrightarrow> (\<exists>j<n. dneq (row ! j) (f j)) \<or> dneq (row ! n) (f n)"
    by (auto simp: less_Suc_eq)
  show ?case
    using n by (auto simp add: assign_row_def foldM_snoc IH assign_step_def upd old ex)
qed

lemma assign_row_fails:
  "length row < n \<Longrightarrow> isl (assign_row f n (row, change))"
proof (induction n)
  case 0
  then show ?case by simp
next
  case (Suc n)
  show ?case
  proof (cases "length row = n")
    case True
    then show ?thesis
      by (simp add: assign_row_def foldM_snoc assign_step_def assign_row_closed[unfolded assign_row_def] vec_get_def)
  next
    case False
    with Suc have "isl (assign_row f n (row, change))" by simp
    then show ?thesis by (cases "assign_row f n (row, change)") (simp_all add: assign_row_def foldM_snoc)
  qed
qed

lemma assign_row_eq_Inr:
  "assign_row f n (row, change) = Inr r \<longleftrightarrow>
     n \<le> length row \<and>
     r = (map f [0..<n] @ drop n row, change \<or> (\<exists>j<n. dneq (row ! j) (f j)))"
proof (cases "n \<le> length row")
  case True
  then show ?thesis by (auto simp: assign_row_closed)
next
  case False
  then have "isl (assign_row f n (row, change))" by (simp add: assign_row_fails)
  with False show ?thesis by auto
qed

lemma assign_table_Suc:
  "assign_table f (Suc m) n s = ebind (assign_table f m n s) (assign_table_step f n m)"
  by (simp add: assign_table_def foldM_snoc)

lemma table_closed_step:
  assumes m: "m < length tbl" and n: "n \<le> length (tbl ! m)"
  shows "assign_table_step f n m (table_closed f m n (tbl, change)) =
           Inr (table_closed f (Suc m) n (tbl, change))"
proof -
  let ?done = "map (\<lambda>i. map (f i) [0..<n] @ drop n (tbl ! i)) [0..<m]"
  have row: "(?done @ drop m tbl) ! m = tbl ! m"
    using m by (simp add: nth_append)
  have upd: "(?done @ drop m tbl)[m := r] = ?done @ r # drop (Suc m) tbl" for r
    using m by (simp add: list_update_append Cons_nth_drop_Suc[symmetric])
  have ex: "(\<exists>i<Suc m. \<exists>j<n. dneq (tbl ! i ! j) (f i j)) \<longleftrightarrow>
            (\<exists>i<m. \<exists>j<n. dneq (tbl ! i ! j) (f i j)) \<or> (\<exists>j<n. dneq (tbl ! m ! j) (f m j))"
    by (auto simp: less_Suc_eq)
  show ?thesis
    using m n
    by (auto simp add: assign_table_step_def table_closed_def row upd ex assign_row_closed)
qed

lemma assign_table_closed:
  "m \<le> length tbl \<Longrightarrow> \<forall>i<m. n \<le> length (tbl ! i) \<Longrightarrow>
   assign_table f m n (tbl, change) = Inr (table_closed f m n (tbl, change))"
proof (induction m)
  case 0
  show ?case by (simp add: assign_table_def table_closed_def)
next
  case (Suc m)
  then have "assign_table f m n (tbl, change) = Inr (table_closed f m n (tbl, change))" by simp
  moreover have "m < length tbl" "n \<le> length (tbl ! m)" using Suc.prems by auto
  ultimately show ?case by (simp add: assign_table_Suc table_closed_step)
qed

lemma assign_table_Inr_dims:
  "assign_table f m n (tbl, change) = Inr r \<Longrightarrow>
   m \<le> length tbl \<and> (\<forall>i<m. n \<le> length (tbl ! i))"
proof (induction m arbitrary: r)
  case 0
  show ?case by simp
next
  case (Suc m)
  from Suc.prems obtain r0 where r0: "assign_table f m n (tbl, change) = Inr r0"
    and st: "assign_table_step f n m r0 = Inr r"
    by (auto simp: assign_table_Suc ebind_eq_Inr)
  from Suc.IH[OF r0] have dims: "m \<le> length tbl" "\<forall>i<m. n \<le> length (tbl ! i)" by auto
  then have r0': "r0 = table_closed f m n (tbl, change)"
    using r0 by (simp add: assign_table_closed)
  have len: "length (fst r0) = length tbl"
    using dims by (simp add: r0' table_closed_def)
  from st have m: "m < length tbl"
    using len by (cases r0) (auto simp: assign_table_step_def ebind_eq_Inr vec_get_eq_Inr)
  then have row: "fst r0 ! m = tbl ! m"
    by (simp add: r0' table_closed_def nth_append)
  from st have "n \<le> length (tbl ! m)"
    using row by (cases r0) (auto simp: assign_table_step_def ebind_eq_Inr vec_get_eq_Inr assign_row_eq_Inr)
  with m dims show ?case by (auto simp: less_Suc_eq)
qed

lemma assign_table_eq_Inr:
  "assign_table f m n (tbl, change) = Inr r \<longleftrightarrow>
     m \<le> length tbl \<and> (\<forall>i<m. n \<le> length (tbl ! i)) \<and> r = table_closed f m n (tbl, change)"
  using assign_table_Inr_dims[of f m n tbl change r] assign_table_closed[of m tbl n f change]
  by auto

lemma table_closed_nth:
  "i < m \<Longrightarrow> j < n \<Longrightarrow> fst (table_closed f m n s) ! i ! j = f i j"
  by (simp add: table_closed_def nth_append)

lemma table_closed_exact:
  "length tbl = m \<Longrightarrow> \<forall>row\<in>set tbl. length row = n \<Longrightarrow>
   fst (table_closed f m n (tbl, change)) = map (\<lambda>i. map (f i) [0..<n]) [0..<m]"
  by (simp add: table_closed_def)

section \<open>Edge names are read back as they were written\<close>

lemma digit_char_all:
  "d < Suc (Suc (Suc (Suc (Suc (Suc (Suc (Suc (Suc (Suc 0))))))))) \<Longrightarrow>
   is_digit (digit_char d) \<and> digit_val (digit_char d) = d"
  by (auto simp: less_Suc_eq digit_char_def is_digit_def digit_val_def)

lemma digit_char_props:
  "d < 10 \<Longrightarrow> is_digit (digit_char d) \<and> digit_val (digit_char d) = d"
  by (rule digit_char_all) (simp add: eval_nat_numeral)

lemma is_digit_plain:
  "is_digit c \<Longrightarrow> \<not> is_space c \<and> c \<noteq> CHR ''-'' \<and> c \<noteq> CHR ''+''"
  by (auto simp: is_digit_def is_space_def)

lemma string_of_nat_digits: "list_all is_digit (string_of_nat n)"
proof (induction n rule: string_of_nat.induct)
  case (1 n)
  show ?case
  proof (cases "n < 10")
    case True
    then show ?thesis by (subst string_of_nat.simps) (simp add: digit_char_props)
  next
    case False
    have "n mod 10 < 10" by simp
    then have "is_digit (digit_char (n mod 10))" by (simp add: digit_char_props)
    with False 1 show ?thesis by (subst string_of_nat.simps) simp
  qed
qed

lemma string_of_nat_nonempty: "string_of_nat n \<noteq> []"
  by (subst string_of_nat.simps) simp

lemma read_digits_append:
  "list_all is_digit ds \<Longrightarrow> rest = [] \<or> \<not> is_digit (hd rest) \<Longrightarrow>
   read_digits acc (ds @ rest) = (foldl (\<lambda>a c. 10 * a + digit_val c) acc ds, rest)"
proof (induction ds arbitrary: acc)
  case Nil
  then show ?case by (cases rest) auto
next
  case (Cons d ds)
  then show ?case by simp
qed

lemma string_of_nat_value: "foldl (\<lambda>a c. 10 * a + digit_val c) 0 (string_of_nat n) = n"
proof (induction n rule: string_of_nat.induct)
  case (1 n)
  show ?case
  proof (cases "n < 10")
    case True
    then show ?thesis by (subst string_of_nat.simps) (simp add: digit_char_props)
  next
    case False
    have "n mod 10 < 10" by simp
    then have "digit_val (digit_char (n mod 10)) = n mod 10" by (simp add: digit_char_props)
    with False 1 show ?thesis by (subst string_of_nat.simps) simp
  qed
qed

text \<open>Reading back a number that \<^verbatim>\<open>%d\<close> has written.\<close>

lemma extract_int_sprintf_d:
  assumes "rest = [] \<or> \<not> is_digit (hd rest)"
  shows "extract_int (CHR '' '' # sprintf_d i @ rest) = (Some i, rest)"
proof -
  obtain d ds where ds: "string_of_nat (nat \<bar>i\<bar>) = d # ds"
    using string_of_nat_nonempty[of "nat \<bar>i\<bar>"] by (cases "string_of_nat (nat \<bar>i\<bar>)") auto
  have dig: "list_all is_digit (d # ds)" using string_of_nat_digits[of "nat \<bar>i\<bar>"] ds by simp
  then have d: "is_digit d" by simp
  have rd: "read_digits 0 ((d # ds) @ rest) = (nat \<bar>i\<bar>, rest)"
    using read_digits_append[OF dig assms, of 0] string_of_nat_value[of "nat \<bar>i\<bar>"] ds by simp
  have sp: "is_space CHR '' ''" by (simp add: is_space_def)
  show ?thesis
  proof (cases "i < 0")
    case True
    then have s: "sprintf_d i = CHR ''-'' # d # ds"
      using ds by (simp add: sprintf_d_def abs_if)
    have ns: "\<not> is_space CHR ''-''" by (simp add: is_space_def)
    show ?thesis
      using True d rd ns sp by (simp add: extract_int_def s)
  next
    case False
    then have s: "sprintf_d i = d # ds"
      using ds by (simp add: sprintf_d_def abs_if)
    show ?thesis
      using False d rd sp is_digit_plain[OF d] by (simp add: extract_int_def s)
  qed
qed

lemma parse_name_S: "parse_edge_name (name_S i) = (Some CHR ''S'', Some i, None)"
proof -
  have "extract_int (CHR '' '' # sprintf_d i @ []) = (Some i, [])"
    by (rule extract_int_sprintf_d) simp
  then show ?thesis
    by (simp add: parse_edge_name_def name_S_def extract_char_def is_space_def extract_int_def)
qed

lemma parse_name_T: "parse_edge_name (name_T i j) = (Some CHR ''T'', Some i, Some j)"
proof -
  have 1: "extract_int (CHR '' '' # sprintf_d i @ (CHR '' '' # sprintf_d j))
            = (Some i, CHR '' '' # sprintf_d j)"
    by (rule extract_int_sprintf_d) (simp add: is_digit_def)
  have 2: "extract_int (CHR '' '' # sprintf_d j @ []) = (Some j, [])"
    by (rule extract_int_sprintf_d) simp
  show ?thesis
    using 1 2 by (simp add: parse_edge_name_def name_T_def extract_char_def is_space_def)
qed

lemma parse_name_E: "parse_edge_name (name_E i obs) = (Some CHR ''E'', Some i, Some obs)"
proof -
  have 1: "extract_int (CHR '' '' # sprintf_d i @ (CHR '' '' # sprintf_d obs))
            = (Some i, CHR '' '' # sprintf_d obs)"
    by (rule extract_int_sprintf_d) (simp add: is_digit_def)
  have 2: "extract_int (CHR '' '' # sprintf_d obs @ []) = (Some obs, [])"
    by (rule extract_int_sprintf_d) simp
  show ?thesis
    using 1 2 by (simp add: parse_edge_name_def name_E_def extract_char_def is_space_def)
qed

lemma parse_name_F: "parse_edge_name ''F'' = (Some CHR ''F'', None, None)"
  by (simp add: parse_edge_name_def extract_char_def is_space_def extract_int_def)

section \<open>The logarithm of 7, rounded\<close>

text \<open>
  The logarithm of 7 lies strictly between \<open>(m + 5/16) / 2\<^bsup>52\<^esup>\<close> and
  \<open>(m + 3/8) / 2\<^bsup>52\<^esup>\<close> for \<open>m = 8763600222181975\<close>.  So it rounds down to
  \<open>m / 2\<^bsup>52\<^esup>\<close>, while the logarithm of the double nearest to 1/7, which is
  \<open>(1 - 2\<^bsup>-54\<^esup>) / 7\<close>, lies a quarter of a unit further from zero and rounds to
  \<open>- (m + 1) / 2\<^bsup>52\<^esup>\<close>.
\<close>

subsection \<open>Enclosures of the exponential\<close>

lemma term_Suc:
  "(x::real) ^ Suc k / fact (Suc k) = (x ^ k / fact k) * (x / real (Suc k))"
  by (simp add: field_simps)

lemma taylor_lo_le:
  assumes A: "0 \<le> A" and D: "0 < D" and S: "0 < (S::real)"
  shows "0 \<le> t \<Longrightarrow> real_of_int t \<le> S * ((real_of_int A / real_of_int D) ^ k / fact k)
     \<Longrightarrow> real_of_int (taylor_lo A D (int k) n t)
         \<le> S * (\<Sum>m = k..<k + n. (real_of_int A / real_of_int D) ^ m / fact m)"
proof (induction n arbitrary: k t)
  case 0
  show ?case by simp
next
  case (Suc n)
  let ?x = "real_of_int A / real_of_int D"
  let ?t' = "t * A div (D * (int k + 1))"
  have x0: "0 \<le> ?x" using A D by simp
  have xk: "0 \<le> ?x / real (Suc k)" using x0 by (rule divide_nonneg_pos) simp
  have pos: "0 < D * (int k + 1)" using D by simp
  have t'0: "0 \<le> ?t'" using Suc.prems(1) A pos by (simp add: pos_imp_zdiv_nonneg_iff)
  have "real_of_int ?t' \<le> real_of_int (t * A) / real_of_int (D * (int k + 1))"
    by (rule real_of_int_div4)
  also have "\<dots> = real_of_int t * (?x / real (Suc k))"
    by (simp add: field_simps)
  also have "\<dots> \<le> (S * (?x ^ k / fact k)) * (?x / real (Suc k))"
    using Suc.prems(2) by (rule mult_right_mono) (rule xk)
  also have "\<dots> = S * (?x ^ Suc k / fact (Suc k))"
    by (simp only: term_Suc mult.assoc)
  finally have t': "real_of_int ?t' \<le> S * (?x ^ Suc k / fact (Suc k))" .
  have "real_of_int (taylor_lo A D (int (Suc k)) n ?t')
          \<le> S * (\<Sum>m = Suc k..<Suc k + n. ?x ^ m / fact m)"
    by (rule Suc.IH[OF t'0 t'])
  moreover have "(\<Sum>m = k..<k + Suc n. ?x ^ m / fact m)
                   = ?x ^ k / fact k + (\<Sum>m = Suc k..<Suc k + n. ?x ^ m / fact m)"
    by (simp add: sum.atLeast_Suc_lessThan)
  ultimately show ?case using Suc.prems(2)
    by (simp add: algebra_simps)
qed

lemma taylor_hi_ge:
  assumes A: "0 \<le> A" and D: "0 < D" and S: "0 < (S::real)"
  shows "S * ((real_of_int A / real_of_int D) ^ k / fact k) \<le> real_of_int t
     \<Longrightarrow> S * ((\<Sum>m = k..<k + n. (real_of_int A / real_of_int D) ^ m / fact m)
              + 9 * ((real_of_int A / real_of_int D) ^ (k + n) / fact (k + n)))
         \<le> real_of_int (taylor_hi A D (int k) n t)"
proof (induction n arbitrary: k t)
  case 0
  have "S * (9 * ((real_of_int A / real_of_int D) ^ k / fact k))
          = 9 * (S * ((real_of_int A / real_of_int D) ^ k / fact k))" by simp
  also have "\<dots> \<le> 9 * real_of_int t" using 0 by simp
  finally show ?case by simp
next
  case (Suc n)
  let ?x = "real_of_int A / real_of_int D"
  let ?t' = "t * A div (D * (int k + 1)) + 1"
  have x0: "0 \<le> ?x" using A D by simp
  have xk: "0 \<le> ?x / real (Suc k)" using x0 by (rule divide_nonneg_pos) simp
  have pos: "0 < D * (int k + 1)" using D by simp
  have "S * (?x ^ Suc k / fact (Suc k)) = (S * (?x ^ k / fact k)) * (?x / real (Suc k))"
    by (simp only: term_Suc mult.assoc)
  also have "\<dots> \<le> real_of_int t * (?x / real (Suc k))"
    using Suc.prems by (rule mult_right_mono) (rule xk)
  also have "\<dots> = real_of_int (t * A) / real_of_int (D * (int k + 1))"
    by (simp add: field_simps)
  also have "\<dots> \<le> real_of_int ?t'"
    using real_of_int_div3[of "t * A" "D * (int k + 1)"] by simp
  finally have t': "S * (?x ^ Suc k / fact (Suc k)) \<le> real_of_int ?t'" .
  have "S * ((\<Sum>m = Suc k..<Suc k + n. ?x ^ m / fact m) + 9 * (?x ^ (Suc k + n) / fact (Suc k + n)))
          \<le> real_of_int (taylor_hi A D (int (Suc k)) n ?t')"
    by (rule Suc.IH[OF t'])
  moreover have "(\<Sum>m = k..<k + Suc n. ?x ^ m / fact m)
                   = ?x ^ k / fact k + (\<Sum>m = Suc k..<Suc k + n. ?x ^ m / fact m)"
    by (simp add: sum.atLeast_Suc_lessThan)
  ultimately show ?case using Suc.prems
    by (simp add: algebra_simps)
qed

lemma exp_ge_sum:
  assumes "0 \<le> (x::real)"
  shows "(\<Sum>m<n. x ^ m / fact m) \<le> exp x"
proof -
  obtain t where "exp x = (\<Sum>m<n. x ^ m / fact m) + (exp t / fact n) * x ^ n"
    using Maclaurin_exp_le[of x n] by blast
  moreover have "0 \<le> (exp t / fact n) * x ^ n" using assms by simp
  ultimately show ?thesis by linarith
qed

lemma exp_le_sum:
  assumes "0 \<le> (x::real)" and "x \<le> 2"
  shows "exp x \<le> (\<Sum>m<n. x ^ m / fact m) + 9 * (x ^ n / fact n)"
proof -
  obtain t where t: "\<bar>t\<bar> \<le> \<bar>x\<bar>"
    and e: "exp x = (\<Sum>m<n. x ^ m / fact m) + (exp t / fact n) * x ^ n"
    using Maclaurin_exp_le[of x n] by blast
  have "exp t \<le> exp 2" using t assms by simp
  also have "exp (2::real) = exp 1 * exp 1" by (simp flip: exp_add)
  also have "\<dots> \<le> 3 * 3" by (intro mult_mono exp_le) simp_all
  finally have "exp t \<le> 9" by simp
  then have "(exp t / fact n) * x ^ n \<le> (9 / fact n) * x ^ n"
    using assms by (intro mult_right_mono divide_right_mono) simp_all
  with e show ?thesis by simp
qed

lemma taylor_lo_numeral:
  "taylor_lo A D k (numeral v) t = t + taylor_lo A D (k + 1) (pred_numeral v) (t * A div (D * (k + 1)))"
  by (simp add: numeral_eq_Suc)

lemma taylor_hi_numeral:
  "taylor_hi A D k (numeral v) t = t + taylor_hi A D (k + 1) (pred_numeral v) (t * A div (D * (k + 1)) + 1)"
  by (simp add: numeral_eq_Suc)

lemma exp_upper:
  assumes A: "0 \<le> A" and D: "0 < D" and le: "A \<le> 2 * D"
    and ev: "taylor_hi A D 0 n (2 ^ 80) < c * 2 ^ 80"
  shows "exp (real_of_int A / real_of_int D) < real_of_int c"
proof -
  define x where "x = real_of_int A / real_of_int D"
  have x0: "0 \<le> x" using A D by (simp add: x_def)
  have "real_of_int A \<le> real_of_int (2 * D)" using le by (simp only: of_int_le_iff)
  then have x2: "x \<le> 2" using D by (simp add: x_def field_simps)
  have "(2::real) ^ 80 * (x ^ 0 / fact 0) \<le> real_of_int (2 ^ 80)" by simp
  from taylor_hi_ge[OF A D _ this[unfolded x_def], of n]
  have "2 ^ 80 * ((\<Sum>m<n. x ^ m / fact m) + 9 * (x ^ n / fact n))
          \<le> real_of_int (taylor_hi A D 0 n (2 ^ 80))"
    by (simp add: x_def atLeast0LessThan)
  also have "\<dots> < real_of_int (c * 2 ^ 80)" using ev by (simp only: of_int_less_iff)
  finally have "(\<Sum>m<n. x ^ m / fact m) + 9 * (x ^ n / fact n) < real_of_int c" by simp
  with exp_le_sum[OF x0 x2, of n] show ?thesis by (simp add: x_def)
qed

lemma exp_lower:
  assumes A: "0 \<le> A" and D: "0 < D"
    and ev: "c * 2 ^ 80 < taylor_lo A D 0 n (2 ^ 80)"
  shows "real_of_int c < exp (real_of_int A / real_of_int D)"
proof -
  define x where "x = real_of_int A / real_of_int D"
  have x0: "0 \<le> x" using A D by (simp add: x_def)
  have "real_of_int (2 ^ 80) \<le> (2::real) ^ 80 * (x ^ 0 / fact 0)" by simp
  from taylor_lo_le[OF A D _ _ this[unfolded x_def], of n]
  have "real_of_int (taylor_lo A D 0 n (2 ^ 80)) \<le> 2 ^ 80 * (\<Sum>m<n. x ^ m / fact m)"
    by (simp add: x_def atLeast0LessThan)
  moreover have "real_of_int (c * 2 ^ 80) < real_of_int (taylor_lo A D 0 n (2 ^ 80))"
    using ev by (simp only: of_int_less_iff)
  ultimately have "real_of_int c < (\<Sum>m<n. x ^ m / fact m)" by simp
  with exp_ge_sum[OF x0, of n] show ?thesis by (simp add: x_def)
qed

lemma ln7_lower: "140217603554911605 / 2 ^ 56 < ln (7::real)"
proof -
  have "exp (real_of_int 140217603554911605 / real_of_int (2 ^ 56)) < real_of_int 7"
    by (rule exp_upper[where n = 30]) (simp_all add: taylor_hi_numeral)
  then have "exp (140217603554911605 / 2 ^ 56) < exp (ln (7::real))" by simp
  then show ?thesis by (simp only: exp_less_cancel_iff)
qed

lemma ln7_upper: "ln (7::real) < 70108801777455803 / 2 ^ 55"
proof -
  have "real_of_int 7 < exp (real_of_int 70108801777455803 / real_of_int (2 ^ 55))"
    by (rule exp_lower[where n = 30]) (simp_all add: taylor_lo_numeral)
  then have "exp (ln (7::real)) < exp (70108801777455803 / 2 ^ 55)" by simp
  then show ?thesis by (simp only: exp_less_cancel_iff)
qed

subsection \<open>Rounding\<close>

lemma round_to_double_floor:
  fixes e f :: int
  assumes lo: "2 powr (of_int e) \<le> \<bar>x\<bar>" and hi: "\<bar>x\<bar> < 2 powr (of_int e + 1)"
    and f1: "of_int f \<le> x / 2 powr (of_int e - 52)"
    and f2: "x / 2 powr (of_int e - 52) < of_int f + 1 / 2"
  shows "round_to_double x = of_int f * 2 powr (of_int e - 52)"
proof -
  have pos: "0 < \<bar>x\<bar>" using lo powr_gt_zero[of 2 "of_int e"] by linarith
  then have x: "x \<noteq> 0" by simp
  have "of_int e \<le> log 2 \<bar>x\<bar>" using lo pos by (simp add: le_log_iff)
  moreover have "log 2 \<bar>x\<bar> < of_int e + 1" using hi pos by (simp add: log_less_iff)
  ultimately have e: "\<lfloor>log 2 \<bar>x\<bar>\<rfloor> = e" by (rule floor_unique)
  have f: "\<lfloor>x / 2 powr (of_int e - 52)\<rfloor> = f" using f1 f2 by (intro floor_unique) linarith+
  have c: "x / 2 powr (of_int e - 52) - of_int f < 1 / 2" using f2 by linarith
  show ?thesis unfolding round_to_double_def Let_def e f using x c
    by (simp only: if_False if_True simp_thms)
qed

lemma round_ln7: "round_to_double (ln 7) = 8763600222181975 / 2 ^ 52"
proof -
  have l: "140217603554911605 / 2 ^ 56 < ln (7::real)" by (rule ln7_lower)
  have u: "ln (7::real) < 70108801777455803 / 2 ^ 55" by (rule ln7_upper)
  have "round_to_double (ln 7) = of_int 8763600222181975 * 2 powr (of_int 0 - 52)"
  proof (rule round_to_double_floor)
    show "2 powr (of_int 0) \<le> \<bar>ln (7::real)\<bar>" using l by simp
    show "\<bar>ln (7::real)\<bar> < 2 powr (of_int 0 + 1)" using l u by simp
    have p: "(2::real) powr (of_int 0 - 52) = 1 / 2 ^ 52"
      by (simp add: powr_minus_divide)
    show "of_int 8763600222181975 \<le> ln (7::real) / 2 powr (of_int 0 - 52)"
      unfolding p using l by simp
    show "ln (7::real) / 2 powr (of_int 0 - 52) < of_int 8763600222181975 + 1 / 2"
      unfolding p using u by simp
  qed
  then show ?thesis by (simp add: powr_minus_divide)
qed

lemma round_seventh: "round_to_double (1 / 7) = 5146971002709138 / 2 ^ 55"
proof -
  have p: "(2::real) powr (of_int (- 3) - 52) = 1 / 2 ^ 55"
    by (simp add: powr_minus_divide)
  have "round_to_double (1 / 7) = of_int 5146971002709138 * 2 powr (of_int (- 3) - 52)"
  proof (rule round_to_double_floor)
    show "2 powr (of_int (- 3)) \<le> \<bar>1 / 7 :: real\<bar>" by (simp add: powr_minus_divide)
    show "\<bar>1 / 7 :: real\<bar> < 2 powr (of_int (- 3) + 1)" by (simp add: powr_minus_divide)
    show "of_int 5146971002709138 \<le> (1 / 7 :: real) / 2 powr (of_int (- 3) - 52)"
      unfolding p by simp
    show "(1 / 7 :: real) / 2 powr (of_int (- 3) - 52) < of_int 5146971002709138 + 1 / 2"
      unfolding p by simp
  qed
  then show ?thesis unfolding p by simp
qed

lemma ln_seventh_rounded:
  "- (70108801777455803 / 2 ^ 55) - 1 / 2 ^ 54 - 2 / 2 ^ 108 < ln (5146971002709138 / 2 ^ 55 :: real)"
  "ln (5146971002709138 / 2 ^ 55 :: real) < - (140217603554911605 / 2 ^ 56) - 1 / 2 ^ 54"
proof -
  have q: "(5146971002709138 / 2 ^ 55 :: real) = (1 - 1 / 2 ^ 54) / 7" by simp
  have "ln ((1 - 1 / 2 ^ 54) / 7 :: real) = ln (1 - 1 / 2 ^ 54) - ln 7"
    using ln_div[of "1 - 1 / 2 ^ 54 :: real" 7] by simp
  then have s: "ln (5146971002709138 / 2 ^ 55 :: real) = ln (1 - 1 / 2 ^ 54) - ln 7"
    by (simp only: q)
  have "ln (1 - 1 / 2 ^ 54 :: real) \<le> (1 - 1 / 2 ^ 54) - 1" by (rule ln_le_minus_one) simp
  then have u: "ln (1 - 1 / 2 ^ 54 :: real) \<le> - (1 / 2 ^ 54)" by simp
  have "- (1 / 2 ^ 54) - 2 * (1 / 2 ^ 54)\<^sup>2 \<le> ln (1 - 1 / 2 ^ 54 :: real)"
    by (rule ln_one_minus_pos_lower_bound) simp_all
  then have l: "- (1 / 2 ^ 54) - 2 / 2 ^ 108 \<le> ln (1 - 1 / 2 ^ 54 :: real)"
    by (simp add: power2_eq_square)
  show "- (70108801777455803 / 2 ^ 55) - 1 / 2 ^ 54 - 2 / 2 ^ 108 < ln (5146971002709138 / 2 ^ 55 :: real)"
    unfolding s using l ln7_upper by linarith
  show "ln (5146971002709138 / 2 ^ 55 :: real) < - (140217603554911605 / 2 ^ 56) - 1 / 2 ^ 54"
    unfolding s using u ln7_lower by linarith
qed

lemma round_ln_seventh:
  "round_to_double (ln (5146971002709138 / 2 ^ 55)) = - (8763600222181976 / 2 ^ 52)"
proof -
  define y :: real where "y = ln (5146971002709138 / 2 ^ 55)"
  have l: "- (70108801777455803 / 2 ^ 55) - 1 / 2 ^ 54 - 2 / 2 ^ 108 < y"
    and u: "y < - (140217603554911605 / 2 ^ 56) - 1 / 2 ^ 54"
    unfolding y_def by (rule ln_seventh_rounded)+
  have p: "(2::real) powr (of_int 0 - 52) = 1 / 2 ^ 52"
    by (simp add: powr_minus_divide)
  have "round_to_double y = of_int (- 8763600222181976) * 2 powr (of_int 0 - 52)"
  proof (rule round_to_double_floor)
    show "2 powr (of_int 0) \<le> \<bar>y\<bar>" using u by simp
    show "\<bar>y\<bar> < 2 powr (of_int 0 + 1)" using l u by simp
    show "of_int (- 8763600222181976) \<le> y / 2 powr (of_int 0 - 52)"
      unfolding p using l by simp
    show "y / 2 powr (of_int 0 - 52) < of_int (- 8763600222181976) + 1 / 2"
      unfolding p using u by simp
  qed
  then show ?thesis unfolding y_def by (simp add: powr_minus_divide)
qed

lemma log_rn_7: "log_rn (Finite 7) = Finite (8763600222181975 / 2 ^ 52)"
  by (simp add: round_ln7)

lemma div_rn_seventh: "div_rn (Finite 1) (Finite 7) = Finite (5146971002709138 / 2 ^ 55)"
  by (simp add: div_rn_def round_seventh)

lemma log_rn_seventh:
  "log_rn (div_rn (Finite 1) (Finite 7)) = Finite (- (8763600222181976 / 2 ^ 52))"
  unfolding div_rn_seventh using round_ln_seventh by simp


section \<open>Viterbi re-estimation\<close>

lemma incr2_eq_Inr:
  "incr2 counts S1 S2 = Inr c \<longleftrightarrow>
     (\<exists>i j. S1 = Some (int i) \<and> S2 = Some (int j) \<and> i < length counts \<and> j < length (counts ! i)
        \<and> c = counts[i := (counts ! i)[j := counts ! i ! j + 1]])"
  apply (simp add: incr2_def ebind_eq_Inr index_eq_Inr)
  apply (rule iffI)
   apply clarsimp
  subgoal for i j by (rule exI[of _ "nat i"], simp, rule exI[of _ "nat j"], auto simp: nat_less_iff)
  apply clarsimp
  done

lemma incr1_eq_Inr:
  "incr1 counts S1 = Inr c \<longleftrightarrow>
     (\<exists>i. S1 = Some (int i) \<and> i < length counts \<and> c = counts[i := counts ! i + 1])"
  apply (simp add: incr1_def ebind_eq_Inr index_eq_Inr)
  apply (rule iffI)
   apply clarsimp
  subgoal for i by (rule exI[of _ "nat i"], auto simp: nat_less_iff)
  apply clarsimp
  done

lemma list_all_update:
  "list_all P xs \<Longrightarrow> P x \<Longrightarrow> list_all P (xs[i := x])"
  by (auto simp: list_all_iff dest!: set_update_subset_insert[THEN subsetD])

lemma nth2_update:
  "i < length tbl \<Longrightarrow> j < length (tbl ! i) \<Longrightarrow>
   tbl[i := (tbl ! i)[j := x]] ! i' ! j' = (if i' = i \<and> j' = j then x else tbl ! i' ! j')"
  by (cases "i' = i") (auto simp: nth_list_update)

text \<open>One step of the tally.\<close>

lemma tally_edge_T:
  assumes "tally_edge h name v = Inr v'" and "fst (parse_edge_name name) = Some CHR ''T''"
  shows "\<exists>i j. parse_edge_name name = (Some CHR ''T'', Some (int i), Some (int j))
           \<and> i < length (trans_counts v) \<and> j < length (trans_counts v ! i)
           \<and> v' = v\<lparr> trans_counts := (trans_counts v)[i := (trans_counts v ! i)[j := trans_counts v ! i ! j + 1]] \<rparr>"
proof -
  obtain S1 S2 where p: "parse_edge_name name = (Some CHR ''T'', S1, S2)"
    using assms(2) by (cases "parse_edge_name name") auto
  from assms(1) show ?thesis
    by (auto simp: tally_edge_def p known_type_def ebind_eq_Inr incr2_eq_Inr)
qed

lemma tally_edge_E:
  assumes "tally_edge h name v = Inr v'" and "fst (parse_edge_name name) = Some CHR ''E''"
  shows "\<exists>i S2. parse_edge_name name = (Some CHR ''E'', Some (int i), S2)
           \<and> i < length (state_counts v)
           \<and> (if is_discrete_HMM h
               then \<exists>k. S2 = Some (int k) \<and> i < length (emiss_counts v) \<and> k < length (emiss_counts v ! i)
                      \<and> v' = v\<lparr> emiss_counts := (emiss_counts v)[i := (emiss_counts v ! i)[k := emiss_counts v ! i ! k + 1]],
                               state_counts := (state_counts v)[i := state_counts v ! i + 1],
                               states := states v @ [int i] \<rparr>
               else v' = v\<lparr> state_counts := (state_counts v)[i := state_counts v ! i + 1],
                               states := states v @ [int i] \<rparr>)"
proof -
  obtain S1 S2 where p: "parse_edge_name name = (Some CHR ''E'', S1, S2)"
    using assms(2) by (cases "parse_edge_name name") auto
  from assms(1) show ?thesis
    by (auto simp: tally_edge_def p known_type_def ebind_eq_Inr incr2_eq_Inr incr1_eq_Inr index_eq_Inr
             split: if_splits)
qed

lemma tally_edge_other:
  assumes "tally_edge h name v = Inr v'" and "fst (parse_edge_name name) \<noteq> Some CHR ''T''"
    and "fst (parse_edge_name name) \<noteq> Some CHR ''E''"
  shows "v' = v"
proof -
  obtain ty S1 S2 where p: "parse_edge_name name = (ty, S1, S2)"
    by (cases "parse_edge_name name") auto
  from assms show ?thesis
    by (auto simp: tally_edge_def p split: if_splits)
qed

lemma tally_step:
  assumes t: "tally_edge h name v = Inr v'" and d: "tally_dims h v"
  shows "tally_dims h v'"
    and "i < N_states h \<Longrightarrow> j < N_states h \<Longrightarrow>
         trans_counts v' ! i ! j = trans_counts v ! i ! j + (if is_T i j name then 1 else 0)"
    and "is_discrete_HMM h \<Longrightarrow> i < N_states h \<Longrightarrow> k < N_symbols h \<Longrightarrow>
         emiss_counts v' ! i ! k = emiss_counts v ! i ! k + (if is_E_sym i k name then 1 else 0)"
    and "i < N_states h \<Longrightarrow>
         state_counts v' ! i = state_counts v ! i + (if is_E name \<and> E_state name = int i then 1 else 0)"
    and "states v' = states v @ (if is_E name then [E_state name] else [])"
    and "is_E name \<Longrightarrow> 0 \<le> E_state name \<and> E_state name < int (N_states h)"
proof -
  consider (T) "fst (parse_edge_name name) = Some CHR ''T''"
    | (E) "fst (parse_edge_name name) = Some CHR ''E''"
    | (other) "fst (parse_edge_name name) \<noteq> Some CHR ''T''" "fst (parse_edge_name name) \<noteq> Some CHR ''E''"
    by blast
  then have "tally_dims h v'
    \<and> (i < N_states h \<longrightarrow> j < N_states h \<longrightarrow>
         trans_counts v' ! i ! j = trans_counts v ! i ! j + (if is_T i j name then 1 else 0))
    \<and> (is_discrete_HMM h \<longrightarrow> i < N_states h \<longrightarrow> k < N_symbols h \<longrightarrow>
         emiss_counts v' ! i ! k = emiss_counts v ! i ! k + (if is_E_sym i k name then 1 else 0))
    \<and> (i < N_states h \<longrightarrow>
         state_counts v' ! i = state_counts v ! i + (if is_E name \<and> E_state name = int i then 1 else 0))
    \<and> states v' = states v @ (if is_E name then [E_state name] else [])
    \<and> (is_E name \<longrightarrow> 0 \<le> E_state name \<and> E_state name < int (N_states h))"
  proof cases
    case T
    from tally_edge_T[OF t T] obtain i0 j0 where
      p: "parse_edge_name name = (Some CHR ''T'', Some (int i0), Some (int j0))"
      and i0: "i0 < length (trans_counts v)" and j0: "j0 < length (trans_counts v ! i0)"
      and v': "v' = v\<lparr> trans_counts := (trans_counts v)[i0 := (trans_counts v ! i0)[j0 := trans_counts v ! i0 ! j0 + 1]] \<rparr>"
      by blast
    have rowlen: "length (trans_counts v ! i0) = N_states h"
      using d i0 by (simp add: tally_dims_def list_all_length)
    have "tally_dims h v'"
      using d i0 rowlen by (simp add: tally_dims_def v' list_all_update)
    moreover have "is_T i j name \<longleftrightarrow> i = i0 \<and> j = j0" by (auto simp: is_T_def p)
    moreover have "\<not> is_E name" "\<not> is_E_sym i k name" by (simp_all add: is_E_def is_E_sym_def p)
    ultimately show ?thesis
      using i0 j0 by (simp add: v' nth2_update)
  next
    case E
    from tally_edge_E[OF t E] obtain i0 S2 where
      p: "parse_edge_name name = (Some CHR ''E'', Some (int i0), S2)"
      and i0: "i0 < length (state_counts v)"
      and r: "if is_discrete_HMM h
               then \<exists>k. S2 = Some (int k) \<and> i0 < length (emiss_counts v) \<and> k < length (emiss_counts v ! i0)
                      \<and> v' = v\<lparr> emiss_counts := (emiss_counts v)[i0 := (emiss_counts v ! i0)[k := emiss_counts v ! i0 ! k + 1]],
                               state_counts := (state_counts v)[i0 := state_counts v ! i0 + 1],
                               states := states v @ [int i0] \<rparr>
               else v' = v\<lparr> state_counts := (state_counts v)[i0 := state_counts v ! i0 + 1],
                               states := states v @ [int i0] \<rparr>"
      by blast
    have isE: "is_E name" "E_state name = int i0" "\<not> is_T i j name"
      by (simp_all add: is_E_def E_state_def is_T_def p)
    have N: "i0 < N_states h" using d i0 by (simp add: tally_dims_def)
    show ?thesis
    proof (cases "is_discrete_HMM h")
      case True
      with r obtain k0 where S2: "S2 = Some (int k0)" and k0: "k0 < length (emiss_counts v ! i0)"
        and i0': "i0 < length (emiss_counts v)"
        and v': "v' = v\<lparr> emiss_counts := (emiss_counts v)[i0 := (emiss_counts v ! i0)[k0 := emiss_counts v ! i0 ! k0 + 1]],
                               state_counts := (state_counts v)[i0 := state_counts v ! i0 + 1],
                               states := states v @ [int i0] \<rparr>"
        by auto
      have rowlen: "length (emiss_counts v ! i0) = N_symbols h"
        using d i0' by (simp add: tally_dims_def list_all_length)
      have "tally_dims h v'"
        using d i0 rowlen by (simp add: tally_dims_def v' list_all_update)
      moreover have "is_E_sym i k name \<longleftrightarrow> i = i0 \<and> k = k0" by (auto simp: is_E_sym_def p S2)
      ultimately show ?thesis
        using isE i0 i0' k0 N by (auto simp add: v' nth2_update nth_list_update)
    next
      case False
      with r have v': "v' = v\<lparr> state_counts := (state_counts v)[i0 := state_counts v ! i0 + 1],
                               states := states v @ [int i0] \<rparr>" by simp
      have "tally_dims h v'"
        using d i0 by (simp add: tally_dims_def v')
      then show ?thesis
        using isE i0 N False by (auto simp add: v' nth_list_update)
    qed
  next
    case other
    from tally_edge_other[OF t other] have "v' = v" .
    moreover have "\<not> is_E name" "\<not> is_T i j name" "\<not> is_E_sym i k name"
      using other by (auto simp: is_E_def is_T_def is_E_sym_def)
    ultimately show ?thesis using d by simp
  qed
  then show "tally_dims h v'"
    and "i < N_states h \<Longrightarrow> j < N_states h \<Longrightarrow>
         trans_counts v' ! i ! j = trans_counts v ! i ! j + (if is_T i j name then 1 else 0)"
    and "is_discrete_HMM h \<Longrightarrow> i < N_states h \<Longrightarrow> k < N_symbols h \<Longrightarrow>
         emiss_counts v' ! i ! k = emiss_counts v ! i ! k + (if is_E_sym i k name then 1 else 0)"
    and "i < N_states h \<Longrightarrow>
         state_counts v' ! i = state_counts v ! i + (if is_E name \<and> E_state name = int i then 1 else 0)"
    and "states v' = states v @ (if is_E name then [E_state name] else [])"
    and "is_E name \<Longrightarrow> 0 \<le> E_state name \<and> E_state name < int (N_states h)"
    by blast+
qed

lemma tally_fold:
  "foldM (tally_edge h) path v = Inr v' \<Longrightarrow> tally_dims h v \<Longrightarrow>
   tally_dims h v'
   \<and> (\<forall>i<N_states h. \<forall>j<N_states h.
         trans_counts v' ! i ! j = trans_counts v ! i ! j + count_names (is_T i j) path)
   \<and> (is_discrete_HMM h \<longrightarrow> (\<forall>i<N_states h. \<forall>k<N_symbols h.
         emiss_counts v' ! i ! k = emiss_counts v ! i ! k + count_names (is_E_sym i k) path))
   \<and> (\<forall>i<N_states h.
         state_counts v' ! i = state_counts v ! i + count_names (\<lambda>nm. is_E nm \<and> E_state nm = int i) path)
   \<and> states v' = states v @ emitting_states path
   \<and> (\<forall>s\<in>set (emitting_states path). 0 \<le> s \<and> s < int (N_states h))"
proof (induction path arbitrary: v)
  case Nil
  then show ?case by (simp add: count_names_def emitting_states_def)
next
  case (Cons name path)
  from Cons.prems(1) obtain v1 where s: "tally_edge h name v = Inr v1"
    and r: "foldM (tally_edge h) path v1 = Inr v'"
    by (auto simp: ebind_eq_Inr)
  note st = tally_step[OF s Cons.prems(2)]
  note IH = Cons.IH[OF r st(1)]
  show ?case
  proof (intro conjI allI impI ballI)
    show "tally_dims h v'" using IH by simp
  next
    fix i j assume "i < N_states h" "j < N_states h"
    then show "trans_counts v' ! i ! j = trans_counts v ! i ! j + count_names (is_T i j) (name # path)"
      using IH st(2)[of i j] by (simp add: count_names_def)
  next
    fix i k assume "is_discrete_HMM h" "i < N_states h" "k < N_symbols h"
    then show "emiss_counts v' ! i ! k = emiss_counts v ! i ! k + count_names (is_E_sym i k) (name # path)"
      using IH st(3)[of i k] by (simp add: count_names_def)
  next
    fix i assume "i < N_states h"
    then show "state_counts v' ! i = state_counts v ! i
        + count_names (\<lambda>nm. is_E nm \<and> E_state nm = int i) (name # path)"
      using IH st(4)[of i] by (simp add: count_names_def)
  next
    show "states v' = states v @ emitting_states (name # path)"
      using IH st(5) by (simp add: emitting_states_def)
  next
    fix s assume "s \<in> set (emitting_states (name # path))"
    then show "0 \<le> s" "s < int (N_states h)"
      using IH st(6) by (auto simp: emitting_states_def split: if_splits)
  qed
qed

lemma initial_tally_dims: "tally_dims h (initial_tally h)"
  by (simp add: tally_dims_def initial_tally_def list_all_length)

lemma viterbi_new_prob_spec:
  assumes len: "length counts = n"
  shows "viterbi_new_prob log_c n counts j = viterbi_spec log_c n (\<lambda>j. counts ! j) j"
proof -
  have tot: "sum_list counts = (\<Sum>j' = 0..<n. counts ! j')"
    using len by (simp add: sum_list_sum_nth)
  show ?thesis
    by (simp add: viterbi_new_prob_def viterbi_spec_def tot[symmetric] double_of_nat_def
          double_of_int_def Let_def)
qed

lemma table_closed_fst: "fst (table_closed f m n (tbl, c)) = fst (table_closed f m n (tbl, c'))"
  by (simp add: table_closed_def)

lemma AdjustProbsToViterbi_Inr:
  assumes "AdjustProbsToViterbi log_c h path = Inr (h', change, sts)"
  shows "\<exists>v T. foldM (tally_edge h) path (initial_tally h) = Inr v \<and> NTimepoints h = Inr T
           \<and> length (states v) = T \<and> sts = states v \<and> h' = viterbi_result log_c h v T"
proof -
  from assms obtain v T r1 where
    v: "foldM (tally_edge h) path (initial_tally h) = Inr v" and T: "NTimepoints h = Inr T"
    and len: "length (states v) = T"
    and r1: "assign_table (\<lambda>i. viterbi_new_prob log_c (N_states h) (trans_counts v ! i))
               (N_states h) (N_states h) (trans_probs h, False) = Inr r1"
    and rest: "(if is_discrete_HMM h then
              ebind (assign_table (\<lambda>i. viterbi_new_prob log_c (N_symbols h) (emiss_counts v ! i))
                       (N_states h) (N_symbols h) (symbol_emiss_probs h, snd r1))
                (\<lambda>(ep, change'). Inr (h\<lparr> state_freqs :=
                   map (\<lambda>i. ddiv (double_of_int (state_counts v ! i)) (double_of_nat T)) [0..<N_states h],
                   trans_probs := fst r1, symbol_emiss_probs := ep \<rparr>, change', states v))
            else Inr (h\<lparr> state_freqs :=
                   map (\<lambda>i. ddiv (double_of_int (state_counts v ! i)) (double_of_nat T)) [0..<N_states h],
                   trans_probs := fst r1\<rparr>, snd r1, states v)) = Inr (h', change, sts)"
    by (auto simp: AdjustProbsToViterbi_def ebind_eq_Inr Let_def split: if_splits prod.splits)
  from r1 have r1': "fst r1 = fst (table_closed (\<lambda>i. viterbi_new_prob log_c (N_states h) (trans_counts v ! i))
                         (N_states h) (N_states h) (trans_probs h, False))"
    by (simp add: assign_table_eq_Inr)
  show ?thesis
  proof (cases "is_discrete_HMM h")
    case True
    with rest obtain ep c' where
      r2: "assign_table (\<lambda>i. viterbi_new_prob log_c (N_symbols h) (emiss_counts v ! i))
                       (N_states h) (N_symbols h) (symbol_emiss_probs h, snd r1) = Inr (ep, c')"
      and h': "h' = h\<lparr> state_freqs :=
                   map (\<lambda>i. ddiv (double_of_int (state_counts v ! i)) (double_of_nat T)) [0..<N_states h],
                   trans_probs := fst r1, symbol_emiss_probs := ep \<rparr>" and sts: "sts = states v"
      by (auto simp: ebind_eq_Inr)
    from r2 have "ep = fst (table_closed (\<lambda>i. viterbi_new_prob log_c (N_symbols h) (emiss_counts v ! i))
                         (N_states h) (N_symbols h) (symbol_emiss_probs h, False))"
      by (auto simp add: assign_table_eq_Inr table_closed_def)
    with True h' r1' sts v T len show ?thesis by (simp add: viterbi_result_def)
  next
    case False
    with rest r1' v T len show ?thesis by (auto simp add: viterbi_result_def)
  qed
qed

lemma AdjustProbsToViterbi_dims:
  assumes "AdjustProbsToViterbi log_c h path = Inr (h', change, sts)"
  shows "N_states h \<le> length (trans_probs h) \<and> (\<forall>i<N_states h. N_states h \<le> length (trans_probs h ! i))
     \<and> (is_discrete_HMM h \<longrightarrow> N_states h \<le> length (symbol_emiss_probs h)
            \<and> (\<forall>i<N_states h. N_symbols h \<le> length (symbol_emiss_probs h ! i)))"
  using assms
  by (auto simp: AdjustProbsToViterbi_def ebind_eq_Inr Let_def assign_table_eq_Inr split: if_splits prod.splits)

lemma viterbi_spec_cong:
  "(\<And>j'. j' < n \<Longrightarrow> c j' = d j') \<Longrightarrow> j < n \<Longrightarrow> viterbi_spec log_c n c j = viterbi_spec log_c n d j"
  by (simp add: viterbi_spec_def)

lemma count_names_nonneg: "0 \<le> count_names P path"
  by (simp add: count_names_def)

lemma count_names_0_iff: "count_names P path = 0 \<longleftrightarrow> (\<forall>nm\<in>set path. \<not> P nm)"
  by (simp add: count_names_def filter_empty_conv)

lemma viterbi_spec_uniform:
  "(\<And>j'. j' < n \<Longrightarrow> c j' = 0) \<Longrightarrow> viterbi_spec log_c n c j = dneg (log_c (Finite (real n)))"
  by (simp add: viterbi_spec_def)

lemma viterbi_spec_unseen:
  assumes nonneg: "\<And>j'. j' < n \<Longrightarrow> 0 \<le> c j'" and seen: "\<exists>j'<n. c j' \<noteq> 0" and j: "c j = 0"
  shows "viterbi_spec log_c n c j = log_c (Finite 0)"
proof -
  have "(\<Sum>j' = 0..<n. c j') = 0 \<longleftrightarrow> (\<forall>j'\<in>{0..<n}. c j' = 0)"
    by (rule sum_nonneg_eq_0_iff) (simp_all add: nonneg)
  with seen have "(\<Sum>j' = 0..<n. c j') \<noteq> 0" by auto
  then show ?thesis by (simp add: viterbi_spec_def j)
qed

text \<open>
  With the exact logarithm the negated logarithm of \<open>n\<close> is the logarithm of \<open>1 / n\<close>,
  and the logarithm of zero is minus infinity.
\<close>

lemma dneg_dlog_exact: "0 < n \<Longrightarrow> dneg (dlog (Finite (real n))) = Finite (ln (1 / real n))"
  by (simp add: ln_div)

lemma dlog_zero: "dlog (Finite 0) = MinusInf"
  by simp

text \<open>
  Claim C3, as stated, fails: the value stored in a row without transitions is
  \<^verbatim>\<open>-log(N)\<close>, and that is not \<^verbatim>\<open>log(1/N)\<close> exactly.  With seven states and the logarithm
  rounded to the nearest double, every entry of the re-estimated transition table is
  \<^verbatim>\<open>-log(7.0)\<close>, that is \<open>- 8763600222181975 / 2\<^bsup>52\<^esup>\<close> or \<^verbatim>\<open>-0x1.f2272ae325a57p+0\<close>,
  whereas \<^verbatim>\<open>log(1.0/7)\<close> is \<open>- 8763600222181976 / 2\<^bsup>52\<^esup>\<close> or \<^verbatim>\<open>-0x1.f2272ae325a58p+0\<close>,
  one unit in the last place away.  The table held \<^verbatim>\<open>log(1.0/7)\<close> throughout before the
  call, and the call reports a change.
\<close>

theorem uniform_row_is_not_log_of_reciprocal:
  "AdjustProbsToViterbi log_rn seven_hmm seven_path =
     Inr (seven_hmm\<lparr> state_freqs := Finite 1 # replicate 6 (Finite 0),
            trans_probs := replicate 7 (replicate 7 (Finite (- (8763600222181975 / 2 ^ 52)))) \<rparr>,
          True, [0])
   \<and> log_rn (div_rn (Finite 1) (Finite 7)) = Finite (- (8763600222181976 / 2 ^ 52))
   \<and> dneg (log_rn (Finite 7)) \<noteq> log_rn (div_rn (Finite 1) (Finite 7))"
  by (simp add: AdjustProbsToViterbi_def seven_hmm_def seven_path_def eval_simps log_rn_7
        log_rn_seventh Let_def numeral_eq_Suc del: log_rn.simps)

text \<open>
  Claim C3, amended.  After a Viterbi re-estimation over the edge names \<open>path\<close>, entry
  \<open>(i, j)\<close> of the transition table is what \<open>viterbi_spec\<close> says of the counts of the
  names \<^verbatim>\<open>T i j\<close> in the path: the negated logarithm of \<open>N_states\<close>, \<^verbatim>\<open>-log(N)\<close>, when
  the path has no transition out of state \<open>i\<close>, and otherwise the logarithm of the count
  over the row total, which is \<^verbatim>\<open>log(0)\<close>, minus infinity, for a pair that was not seen.
  On a discrete HMM the symbol emissions are set in the same way from the counts of the
  names \<^verbatim>\<open>E i k\<close>, with \<^verbatim>\<open>-log(N_symbols)\<close> as the fallback.  This holds for whatever
  logarithm the program calls; \<^verbatim>\<open>-log(N)\<close> is \<^verbatim>\<open>log(1/N)\<close> for the exact logarithm only.
\<close>

theorem AdjustProbsToViterbi_reestimates:
  assumes run: "AdjustProbsToViterbi log_c h path = Inr (h', change, sts)" and i: "i < N_states h"
  shows "(\<forall>j<N_states h.
            trans_probs h' ! i ! j = viterbi_spec log_c (N_states h) (\<lambda>j. count_names (is_T i j) path) j
            \<and> ((\<forall>nm\<in>set path. \<forall>j'<N_states h. \<not> is_T i j' nm) \<longrightarrow>
                 trans_probs h' ! i ! j = dneg (log_c (Finite (real (N_states h)))))
            \<and> ((\<exists>nm\<in>set path. \<exists>j'<N_states h. is_T i j' nm) \<longrightarrow>
                 (\<forall>nm\<in>set path. \<not> is_T i j nm) \<longrightarrow>
                 trans_probs h' ! i ! j = log_c (Finite 0)))
       \<and> (is_discrete_HMM h \<longrightarrow> (\<forall>k<N_symbols h.
            symbol_emiss_probs h' ! i ! k
              = viterbi_spec log_c (N_symbols h) (\<lambda>k. count_names (is_E_sym i k) path) k
            \<and> ((\<forall>nm\<in>set path. \<forall>k'<N_symbols h. \<not> is_E_sym i k' nm) \<longrightarrow>
                 symbol_emiss_probs h' ! i ! k = dneg (log_c (Finite (real (N_symbols h)))))
            \<and> ((\<exists>nm\<in>set path. \<exists>k'<N_symbols h. is_E_sym i k' nm) \<longrightarrow>
                 (\<forall>nm\<in>set path. \<not> is_E_sym i k nm) \<longrightarrow>
                 symbol_emiss_probs h' ! i ! k = log_c (Finite 0))))"
proof -
  from AdjustProbsToViterbi_Inr[OF run] obtain v T where
    v: "foldM (tally_edge h) path (initial_tally h) = Inr v" and h': "h' = viterbi_result log_c h v T"
    by blast
  note tf = tally_fold[OF v initial_tally_dims]
  have dims: "tally_dims h v" using tf by simp
  have trow: "length (trans_counts v ! i) = N_states h"
    using dims i by (simp add: tally_dims_def list_all_length)
  have tc: "trans_counts v ! i ! j = count_names (is_T i j) path" if "j < N_states h" for j
    using tf i that by (simp add: initial_tally_def)
  have T: "trans_probs h' ! i ! j = viterbi_spec log_c (N_states h) (\<lambda>j. count_names (is_T i j) path) j"
    if j: "j < N_states h" for j
  proof -
    have "trans_probs h' ! i ! j = viterbi_new_prob log_c (N_states h) (trans_counts v ! i) j"
      using i j by (simp add: h' viterbi_result_def Let_def table_closed_nth)
    also have "\<dots> = viterbi_spec log_c (N_states h) (\<lambda>j. trans_counts v ! i ! j) j"
      by (rule viterbi_new_prob_spec[OF trow])
    also have "\<dots> = viterbi_spec log_c (N_states h) (\<lambda>j. count_names (is_T i j) path) j"
      by (rule viterbi_spec_cong) (simp_all add: tc j)
    finally show ?thesis .
  qed
  have E: "symbol_emiss_probs h' ! i ! k
              = viterbi_spec log_c (N_symbols h) (\<lambda>k. count_names (is_E_sym i k) path) k"
    if d: "is_discrete_HMM h" and k: "k < N_symbols h" for k
  proof -
    have erow: "length (emiss_counts v ! i) = N_symbols h"
      using dims i by (simp add: tally_dims_def list_all_length)
    have ec: "emiss_counts v ! i ! k' = count_names (is_E_sym i k') path" if "k' < N_symbols h" for k'
      using tf i d that by (simp add: initial_tally_def)
    have "symbol_emiss_probs h' ! i ! k = viterbi_new_prob log_c (N_symbols h) (emiss_counts v ! i) k"
      using i k d by (simp add: h' viterbi_result_def Let_def table_closed_nth)
    also have "\<dots> = viterbi_spec log_c (N_symbols h) (\<lambda>k. emiss_counts v ! i ! k) k"
      by (rule viterbi_new_prob_spec[OF erow])
    also have "\<dots> = viterbi_spec log_c (N_symbols h) (\<lambda>k. count_names (is_E_sym i k) path) k"
      by (rule viterbi_spec_cong) (simp_all add: ec k)
    finally show ?thesis .
  qed
  show ?thesis
  proof (intro conjI allI impI)
    fix j assume j: "j < N_states h"
    show "trans_probs h' ! i ! j = viterbi_spec log_c (N_states h) (\<lambda>j. count_names (is_T i j) path) j"
      by (rule T[OF j])
    {
      assume "\<forall>nm\<in>set path. \<forall>j'<N_states h. \<not> is_T i j' nm"
      then have "count_names (is_T i j') path = 0" if "j' < N_states h" for j'
        using that by (simp add: count_names_0_iff)
      then show "trans_probs h' ! i ! j = dneg (log_c (Finite (real (N_states h))))"
        by (simp add: T[OF j] viterbi_spec_uniform)
    }
    {
      assume "\<exists>nm\<in>set path. \<exists>j'<N_states h. is_T i j' nm" and "\<forall>nm\<in>set path. \<not> is_T i j nm"
      then have "\<exists>j'<N_states h. count_names (is_T i j') path \<noteq> 0"
        and "count_names (is_T i j) path = 0"
        by (auto simp: count_names_0_iff)
      then show "trans_probs h' ! i ! j = log_c (Finite 0)"
        unfolding T[OF j] by (intro viterbi_spec_unseen count_names_nonneg)
    }
  next
    fix k assume d: "is_discrete_HMM h" and k: "k < N_symbols h"
    show "symbol_emiss_probs h' ! i ! k
              = viterbi_spec log_c (N_symbols h) (\<lambda>k. count_names (is_E_sym i k) path) k"
      by (rule E[OF d k])
    {
      assume "\<forall>nm\<in>set path. \<forall>k'<N_symbols h. \<not> is_E_sym i k' nm"
      then have "count_names (is_E_sym i k') path = 0" if "k' < N_symbols h" for k'
        using that by (simp add: count_names_0_iff)
      then show "symbol_emiss_probs h' ! i ! k = dneg (log_c (Finite (real (N_symbols h))))"
        by (simp add: E[OF d k] viterbi_spec_uniform)
    }
    {
      assume "\<exists>nm\<in>set path. \<exists>k'<N_symbols h. is_E_sym i k' nm"
        and "\<forall>nm\<in>set path. \<not> is_E_sym i k nm"
      then have "\<exists>k'<N_symbols h. count_names (is_E_sym i k') path \<noteq> 0"
        and "count_names (is_E_sym i k) path = 0"
        by (auto simp: count_names_0_iff)
      then show "symbol_emiss_probs h' ! i ! k = log_c (Finite 0)"
        unfolding E[OF d k] by (intro viterbi_spec_unseen count_names_nonneg)
    }
  qed
qed

lemma count_names_emitting:
  "count_names (\<lambda>nm. is_E nm \<and> E_state nm = x) path = int (count_list (emitting_states path) x)"
  by (induction path) (auto simp: count_names_def emitting_states_def)

lemma viterbi_result_state_freqs:
  "state_freqs (viterbi_result log_c h v T) =
     map (\<lambda>i. ddiv (double_of_int (state_counts v ! i)) (double_of_nat T)) [0..<N_states h]"
  by (simp add: viterbi_result_def Let_def)

lemma viterbi_result_init_probs: "init_probs (viterbi_result log_c h v T) = init_probs h"
  by (simp add: viterbi_result_def Let_def)

lemma AdjustProbsToViterbi_states:
  assumes run: "AdjustProbsToViterbi log_c h path = Inr (h', change, sts)"
  shows "\<exists>T. NTimepoints h = Inr T
          \<and> sts = emitting_states path
          \<and> length sts = T
          \<and> (\<forall>s\<in>set sts. 0 \<le> s \<and> s < int (N_states h))
          \<and> length (state_freqs h') = N_states h
          \<and> (\<forall>i<N_states h.
               state_freqs h' ! i
                 = ddiv (double_of_int (int (count_list sts (int i)))) (double_of_nat T)
               \<and> (0 < T \<longrightarrow>
                    state_freqs h' ! i = Finite (real (count_list sts (int i)) / real T)))"
proof -
  from AdjustProbsToViterbi_Inr[OF run] obtain v T where
    v: "foldM (tally_edge h) path (initial_tally h) = Inr v" and T: "NTimepoints h = Inr T"
    and len: "length (states v) = T" and sts: "sts = states v" and h': "h' = viterbi_result log_c h v T"
    by blast
  note tf = tally_fold[OF v initial_tally_dims]
  have sts': "sts = emitting_states path" using tf sts by (simp add: initial_tally_def)
  have sc: "state_counts v ! i = int (count_list sts (int i))" if "i < N_states h" for i
    using tf that by (simp add: initial_tally_def count_names_emitting sts')
  have sf: "state_freqs h' ! i = ddiv (double_of_int (int (count_list sts (int i)))) (double_of_nat T)"
    if "i < N_states h" for i
    using that by (simp add: h' viterbi_result_state_freqs sc)
  have "length (state_freqs h') = N_states h" by (simp add: h' viterbi_result_state_freqs)
  moreover have "\<forall>s\<in>set sts. 0 \<le> s \<and> s < int (N_states h)" using tf sts' by simp
  moreover have "\<forall>i<N_states h.
               state_freqs h' ! i
                 = ddiv (double_of_int (int (count_list sts (int i)))) (double_of_nat T)
               \<and> (0 < T \<longrightarrow>
                    state_freqs h' ! i = Finite (real (count_list sts (int i)) / real T))"
    using sf by (auto simp: double_of_int_def double_of_nat_def)
  ultimately show ?thesis using T sts' len sts by auto
qed

lemma ViterbiTraining_Inr:
  assumes "ViterbiTraining FindBestPath log_c h = Inr (h', change, sts)"
  shows "\<exists>wdag h0. HasAllData h \<and> to_WDAG h = Inr wdag
           \<and> AdjustProbsToViterbi log_c h (best_edges (FindBestPath wdag)) = Inr (h0, change, sts)
           \<and> h' = h0\<lparr> ran_viterbi := True \<rparr>"
  using assms
  by (auto simp: ViterbiTraining_def ebind_eq_Inr split: if_splits)

lemma ex_trellis: "to_WDAG ex_hmm = Inr ex_trellis"
  by (simp add: ex_hmm_def ex_trellis_def build_simps eval_simps)

lemma ex_run:
  "AdjustProbsToViterbi dlog ex_hmm ex_path =
     Inr (ex_hmm\<lparr> state_freqs := [Finite 1, Finite 0],
                   trans_probs := [[Finite 0, MinusInf], [Finite (- ln 2), Finite (- ln 2)]] \<rparr>,
          True, [0, 0])"
  by (simp add: AdjustProbsToViterbi_def ex_hmm_def ex_path_def eval_simps)

text \<open>
  The amended claim C3 with the exact logarithm, on a path that visits state 0 only: row
  1 of the transition table becomes \<^verbatim>\<open>-log(2)\<close> throughout, and the pair \<open>(0, 1)\<close>, which
  was not seen, gets \<^verbatim>\<open>log(0)\<close>.
\<close>

theorem AdjustProbsToViterbi_reestimates_witness:
  "AdjustProbsToViterbi dlog ex_hmm ex_path =
     Inr (ex_hmm\<lparr> state_freqs := [Finite 1, Finite 0],
                   trans_probs := [[Finite 0, MinusInf], [Finite (- ln 2), Finite (- ln 2)]] \<rparr>,
          True, [0, 0])
   \<and> (1::nat) < N_states ex_hmm
   \<and> count_names (is_T 1 0) ex_path = 0 \<and> count_names (is_T 1 1) ex_path = 0
   \<and> trans_probs (ex_hmm\<lparr> state_freqs := [Finite 1, Finite 0],
                   trans_probs := [[Finite 0, MinusInf], [Finite (- ln 2), Finite (- ln 2)]] \<rparr>) ! 1 ! 0
        = dneg (dlog (Finite (real (N_states ex_hmm))))"
proof -
  have i: "(1::nat) < N_states ex_hmm" by (simp add: ex_hmm_def HMM_def)
  have c: "count_names (is_T 1 0) ex_path = 0" "count_names (is_T 1 1) ex_path = 0"
    by (simp_all add: count_names_def ex_path_def is_T_def eval_simps)
  have none: "\<forall>nm\<in>set ex_path. \<forall>j'<N_states ex_hmm. \<not> is_T 1 j' nm"
    by (simp add: ex_path_def is_T_def eval_simps)
  from AdjustProbsToViterbi_reestimates[OF ex_run i] none
  have "trans_probs (ex_hmm\<lparr> state_freqs := [Finite 1, Finite 0],
                   trans_probs := [[Finite 0, MinusInf], [Finite (- ln 2), Finite (- ln 2)]] \<rparr>) ! 1 ! 0
        = dneg (dlog (Finite (real (N_states ex_hmm))))"
    by (simp add: ex_hmm_def HMM_def)
  with ex_run i c show ?thesis by (intro conjI)
qed

section \<open>The trellis\<close>

lemma AddNode_eq: "AddNode w = (w\<lparr> nodes := nodes w @ [node_of []] \<rparr>, length (nodes w))"
  by (simp add: AddNode_def node_of_def)

lemma AddEdge_last:
  "p < length ns \<Longrightarrow> nodes w = ns @ [node_of es] \<Longrightarrow>
   AddEdge w (length ns) (Some p) name wt =
     Inr (w\<lparr> nodes := ns @ [node_of (es @ [(p, name, wt)])] \<rparr>)"
  by (simp add: AddEdge_def node_of_def)

text \<open>The loop over \<open>i_prev\<close> that adds the transition edges into a new node.\<close>

lemma trans_edges_loop:
  assumes wf: "hmm_wf h" and i: "i < N_states h"
    and sB: "\<forall>i_prev<N_states h. stateB ! i_prev = Some (b0 + i_prev)"
    and b0: "b0 + N_states h \<le> length ns"
  shows "m \<le> N_states h \<Longrightarrow> nodes w = ns @ [node_of es] \<Longrightarrow>
    foldM (\<lambda>i_prev w'.
             ebind (vec_get (trans_probs h) i_prev) (\<lambda>row.
             ebind (vec_get row i) (\<lambda>p.
             AddEdge w' (length ns) (stateB ! i_prev) (name_T (int i_prev) (int i)) p)))
       [0..<m] w
    = Inr (w\<lparr> nodes := ns @ [node_of (es @ map (\<lambda>i_prev. (b0 + i_prev,
                            name_T (int i_prev) (int i),
                            trans_probs h ! i_prev ! i)) [0..<m])] \<rparr>)"
proof (induction m)
  case 0
  then show ?case by simp
next
  case (Suc m)
  then have m: "m < N_states h" by simp
  have row: "m < length (trans_probs h)" "i < length (trans_probs h ! m)"
    using wf m i by (simp_all add: hmm_wf_def list_all_length)
  have p: "b0 + m < length ns" using b0 m by simp
  show ?case
    using Suc m sB
    by (simp add: foldM_snoc row AddEdge_last[OF p])
qed

lemma list_update_done:
  "n < length xs \<Longrightarrow> (map f [0..<n] @ drop n xs)[n := x] = map f [0..<n] @ x # drop (Suc n) xs"
  by (simp add: list_update_append Cons_nth_drop_Suc[symmetric])

lemma A_edges_0: "A_edges h 0 i = [(0, name_S (int i), init_probs h ! i)]"
  by (simp add: A_edges_def)

lemma A_edges_pos:
  "0 < t \<Longrightarrow> A_edges h t i =
     map (\<lambda>i_prev. (B_id (N_states h) (t - 1) 0 + i_prev, name_T (int i_prev) (int i),
                      trans_probs h ! i_prev ! i)) [0..<N_states h]"
  by (simp add: A_edges_def B_id_def)

text \<open>The first inner loop of a timepoint: the layer of nodes \<open>stateA\<close>.\<close>

lemma add_A_loop:
  assumes wf: "hmm_wf h"
    and lenA: "length stateA = N_states h"
    and k: "0 < length (nodes w)"
    and sB: "0 < t \<Longrightarrow> \<forall>i<N_states h. stateB ! i = Some (B_id (N_states h) (t - 1) 0 + i)"
    and b0: "0 < t \<Longrightarrow> B_id (N_states h) (t - 1) 0 + N_states h \<le> length (nodes w)"
  shows "n \<le> N_states h \<Longrightarrow>
    foldM (add_A h 0 t) [0..<n] (w, stateA, stateB)
    = Inr (w\<lparr> nodes := nodes w @ map (\<lambda>i. node_of (A_edges h t i)) [0..<n] \<rparr>,
           map (\<lambda>i. Some (length (nodes w) + i)) [0..<n] @ drop n stateA,
           stateB)"
proof (induction n)
  case 0
  show ?case by simp
next
  case (Suc n)
  then have n: "n < N_states h" by simp
  define ns where "ns = nodes w @ map (\<lambda>i. node_of (A_edges h t i)) [0..<n]"
  define sA where "sA = map (\<lambda>i. Some (length (nodes w) + i)) [0..<n] @ drop n stateA"
  have IH: "foldM (add_A h 0 t) [0..<n] (w, stateA, stateB) = Inr (w\<lparr> nodes := ns \<rparr>, sA, stateB)"
    using Suc by (simp add: ns_def sA_def)
  have len: "length ns = length (nodes w) + n" by (simp add: ns_def)
  have upd: "sA[n := Some (length (nodes w) + n)]
               = map (\<lambda>i. Some (length (nodes w) + i)) [0..<Suc n] @ drop (Suc n) stateA"
    using n lenA by (simp add: sA_def list_update_done)
  have snoc: "ns @ [node_of (A_edges h t n)]
               = nodes w @ map (\<lambda>i. node_of (A_edges h t i)) [0..<Suc n]"
    by (simp add: ns_def)
  have e: "ebind (if t = 0 then
              ebind (vec_get (init_probs h) n) (\<lambda>p.
              AddEdge (w\<lparr> nodes := ns @ [node_of []] \<rparr>) (length ns) (Some 0) (name_S (int n)) p)
            else
              foldM (\<lambda>i_prev w'.
                       ebind (vec_get (trans_probs h) i_prev) (\<lambda>row.
                       ebind (vec_get row n) (\<lambda>p.
                       AddEdge w' (length ns) (stateB ! i_prev) (name_T (int i_prev) (int n)) p)))
                     [0..<N_states h] (w\<lparr> nodes := ns @ [node_of []] \<rparr>)) Inr
          = Inr (w\<lparr> nodes := ns @ [node_of (A_edges h t n)] \<rparr>)"
  proof (cases "t = 0")
    case True
    have init: "n < length (init_probs h)" using wf n by (simp add: hmm_wf_def)
    have p: "0 < length ns" using k len by simp
    show ?thesis
      using True init
        AddEdge_last[OF p, where w = "w\<lparr> nodes := ns @ [node_of []] \<rparr>" and es = "[]"]
      by (simp add: A_edges_0)
  next
    case False
    then have t: "0 < t" by simp
    have b: "B_id (N_states h) (t - 1) 0 + N_states h \<le> length ns"
      using b0[OF t] len by simp
    show ?thesis
      using False
        trans_edges_loop[OF wf n sB[OF t] b, where w = "w\<lparr> nodes := ns @ [node_of []] \<rparr>"
              and es = "[]" and m = "N_states h"]
      by (simp add: A_edges_pos[OF t])
  qed
  have step: "add_A h 0 t n (w\<lparr> nodes := ns \<rparr>, sA, stateB)
      = Inr (w\<lparr> nodes := nodes w @ map (\<lambda>i. node_of (A_edges h t i)) [0..<Suc n] \<rparr>,
             map (\<lambda>i. Some (length (nodes w) + i)) [0..<Suc n] @ drop (Suc n) stateA, stateB)"
  proof (cases "t = 0")
    case True
    with e show ?thesis
      by (auto simp add: add_A_def AddNode_eq len upd snoc[unfolded True, symmetric] ebind_eq_Inr
               simp del: upt_Suc)
  next
    case False
    with e show ?thesis
      by (auto simp add: add_A_def AddNode_eq len upd snoc[symmetric] ebind_eq_Inr
               simp del: upt_Suc)
  qed
  show ?case
    unfolding upt_Suc_append[OF le0] foldM_snoc IH
    by (simp add: step)
qed

lemma emission_eq:
  assumes wf: "hmm_wf h" and i: "i < N_states h" and t: "timepoint_ok h t"
  shows "\<exists>obs p. emission h t i = Inr (obs, p)
           \<and> B_edges h t i = [(A_id (N_states h) t i, name_E (int i) obs, p)]"
proof (cases "is_discrete_HMM h")
  case True
  have o: "t < length (observations h)" using t True by (simp add: timepoint_ok_def)
  have r: "i < length (symbol_emiss_probs h)" "length (symbol_emiss_probs h ! i) = N_symbols h"
    using wf True i by (simp_all add: hmm_wf_def list_all_length)
  have rng: "0 \<le> observations h ! t" "observations h ! t < int (N_symbols h)"
    using wf True o by (simp_all add: hmm_wf_def list_all_length)
  show ?thesis
    using True o r rng by (simp add: emission_def B_edges_def index_def)
next
  case False
  have o: "t < length (time_emiss_probs h)" using t False by (simp add: timepoint_ok_def)
  have r: "i < length (time_emiss_probs h ! t)"
    using wf False i o by (simp add: hmm_wf_def list_all_length)
  show ?thesis
    using False o r by (simp add: emission_def B_edges_def)
qed

text \<open>The second inner loop of a timepoint: the layer of nodes \<open>stateB\<close>.\<close>

lemma add_B_loop:
  assumes wf: "hmm_wf h" and t: "timepoint_ok h t"
    and lenB: "length stateB = N_states h"
    and sA: "\<forall>i<N_states h. stateA ! i = Some (A_id (N_states h) t i)"
    and a0: "A_id (N_states h) t 0 + N_states h \<le> length (nodes w)"
  shows "n \<le> N_states h \<Longrightarrow>
    foldM (add_B h t) [0..<n] (w, stateA, stateB)
    = Inr (w\<lparr> nodes := nodes w @ map (\<lambda>i. node_of (B_edges h t i)) [0..<n] \<rparr>,
           stateA,
           map (\<lambda>i. Some (length (nodes w) + i)) [0..<n] @ drop n stateB)"
proof (induction n)
  case 0
  show ?case by simp
next
  case (Suc n)
  then have n: "n < N_states h" by simp
  define ns where "ns = nodes w @ map (\<lambda>i. node_of (B_edges h t i)) [0..<n]"
  define sB where "sB = map (\<lambda>i. Some (length (nodes w) + i)) [0..<n] @ drop n stateB"
  have IH: "foldM (add_B h t) [0..<n] (w, stateA, stateB) = Inr (w\<lparr> nodes := ns \<rparr>, stateA, sB)"
    using Suc by (simp add: ns_def sB_def)
  have len: "length ns = length (nodes w) + n" by (simp add: ns_def)
  have upd: "sB[n := Some (length (nodes w) + n)]
               = map (\<lambda>i. Some (length (nodes w) + i)) [0..<Suc n] @ drop (Suc n) stateB"
    using n lenB by (simp add: sB_def list_update_done)
  have snoc: "ns @ [node_of (B_edges h t n)]
               = nodes w @ map (\<lambda>i. node_of (B_edges h t i)) [0..<Suc n]"
    by (simp add: ns_def)
  from emission_eq[OF wf n t] obtain obs p where
    em: "emission h t n = Inr (obs, p)"
    and be: "B_edges h t n = [(A_id (N_states h) t n, name_E (int n) obs, p)]"
    by blast
  have par: "A_id (N_states h) t n < length ns"
    using a0 n len by (simp add: A_id_def)
  have step: "add_B h t n (w\<lparr> nodes := ns \<rparr>, stateA, sB)
      = Inr (w\<lparr> nodes := nodes w @ map (\<lambda>i. node_of (B_edges h t i)) [0..<Suc n] \<rparr>,
             stateA,
             map (\<lambda>i. Some (length (nodes w) + i)) [0..<Suc n] @ drop (Suc n) stateB)"
    using sA n
      AddEdge_last[OF par, where w = "w\<lparr> nodes := ns @ [node_of []] \<rparr>" and es = "[]"]
    by (simp add: add_B_def em AddNode_eq len upd snoc[symmetric] be del: upt_Suc)
  show ?case
    unfolding upt_Suc_append[OF le0] foldM_snoc IH
    by (simp add: step)
qed

text \<open>One timepoint adds one layer.\<close>

lemma add_timepoint_eq:
  assumes wf: "hmm_wf h" and t: "timepoint_ok h t"
    and lenA: "length stateA = N_states h" and lenB: "length stateB = N_states h"
    and len: "length (nodes w) = A_id (N_states h) t 0"
    and sB: "0 < t \<Longrightarrow> \<forall>i<N_states h. stateB ! i = Some (B_id (N_states h) (t - 1) i)"
  shows "add_timepoint h 0 t (w, stateA, stateB)
    = Inr (w\<lparr> nodes := nodes w @ layer h t \<rparr>,
           map (\<lambda>i. Some (A_id (N_states h) t i)) [0..<N_states h],
           map (\<lambda>i. Some (B_id (N_states h) t i)) [0..<N_states h])"
proof -
  have k: "0 < length (nodes w)" using len by (simp add: A_id_def)
  have sB': "0 < t \<Longrightarrow> \<forall>i<N_states h. stateB ! i = Some (B_id (N_states h) (t - 1) 0 + i)"
    using sB by (simp add: B_id_def)
  have b0: "0 < t \<Longrightarrow> B_id (N_states h) (t - 1) 0 + N_states h \<le> length (nodes w)"
  proof -
    assume "0 < t"
    then obtain t' where "t = Suc t'" by (cases t) auto
    then show ?thesis using len by (simp add: B_id_def A_id_def)
  qed
  have A: "foldM (add_A h 0 t) [0..<N_states h] (w, stateA, stateB)
    = Inr (w\<lparr> nodes := nodes w @ map (\<lambda>i. node_of (A_edges h t i)) [0..<N_states h] \<rparr>,
           map (\<lambda>i. Some (A_id (N_states h) t i)) [0..<N_states h],
           stateB)"
    using add_A_loop[OF wf lenA k sB' b0, of "N_states h"] lenA len
    by (simp add: A_id_def)
  define w1 where "w1 = w\<lparr> nodes := nodes w @ map (\<lambda>i. node_of (A_edges h t i)) [0..<N_states h] \<rparr>"
  have len1: "length (nodes w1) = B_id (N_states h) t 0"
    using len by (simp add: w1_def A_id_def B_id_def)
  have a0: "A_id (N_states h) t 0 + N_states h \<le> length (nodes w1)"
    using len1 by (simp add: A_id_def B_id_def)
  have B: "foldM (add_B h t) [0..<N_states h]
             (w1, map (\<lambda>i. Some (A_id (N_states h) t i)) [0..<N_states h], stateB)
    = Inr (w1\<lparr> nodes := nodes w1 @ map (\<lambda>i. node_of (B_edges h t i)) [0..<N_states h] \<rparr>,
           map (\<lambda>i. Some (A_id (N_states h) t i)) [0..<N_states h],
           map (\<lambda>i. Some (B_id (N_states h) t i)) [0..<N_states h])"
    using add_B_loop[OF wf t lenB _ a0, of "map (\<lambda>i. Some (A_id (N_states h) t i)) [0..<N_states h]" "N_states h"]
      lenB len1
    by (simp add: B_id_def)
  show ?thesis
    unfolding add_timepoint_def A w1_def[symmetric]
    by (simp add: B) (simp add: w1_def layer_def)
qed

lemma length_layer [simp]: "length (layer h t) = 2 * N_states h"
  by (simp add: layer_def)

lemma length_layers [simp]: "length (concat (map (layer h) [0..<n])) = 2 * N_states h * n"
  by (induction n) (simp_all add: algebra_simps)

lemma length_pointers [simp]: "length (pointers N ident n) = N"
  by (simp add: pointers_def)

text \<open>The loop over the timepoints.\<close>

lemma timepoints_loop:
  assumes wf: "hmm_wf h" and ok: "\<forall>t<T. timepoint_ok h t" and w0: "nodes w0 = [node_of []]"
  shows "n \<le> T \<Longrightarrow>
    foldM (add_timepoint h 0) [0..<n]
      (w0, replicate (N_states h) None, replicate (N_states h) None)
    = Inr (w0\<lparr> nodes := node_of [] # concat (map (layer h) [0..<n]) \<rparr>,
           pointers (N_states h) (A_id (N_states h)) n,
           pointers (N_states h) (B_id (N_states h)) n)"
proof (induction n)
  case 0
  show ?case using w0 by (simp add: pointers_def)
next
  case (Suc n)
  then have n: "n < T" by simp
  define w where "w = w0\<lparr> nodes := node_of [] # concat (map (layer h) [0..<n]) \<rparr>"
  have IH: "foldM (add_timepoint h 0) [0..<n]
      (w0, replicate (N_states h) None, replicate (N_states h) None)
    = Inr (w, pointers (N_states h) (A_id (N_states h)) n, pointers (N_states h) (B_id (N_states h)) n)"
    using Suc by (simp add: w_def)
  have len: "length (nodes w) = A_id (N_states h) n 0"
    by (simp add: w_def A_id_def)
  have sB: "0 < n \<Longrightarrow> \<forall>i<N_states h.
      pointers (N_states h) (B_id (N_states h)) n ! i = Some (B_id (N_states h) (n - 1) i)"
    by (simp add: pointers_def)
  have step: "add_timepoint h 0 n
       (w, pointers (N_states h) (A_id (N_states h)) n, pointers (N_states h) (B_id (N_states h)) n)
    = Inr (w\<lparr> nodes := nodes w @ layer h n \<rparr>,
           map (\<lambda>i. Some (A_id (N_states h) n i)) [0..<N_states h],
           map (\<lambda>i. Some (B_id (N_states h) n i)) [0..<N_states h])"
    using ok n by (intro add_timepoint_eq[OF wf _ _ _ len sB]) simp_all
  show ?case
    unfolding upt_Suc_append[OF le0] foldM_snoc IH
    by (simp add: step) (simp add: w_def pointers_def)
qed

text \<open>The loop that joins the last layer to the end node.\<close>

lemma F_edges_loop:
  assumes sB: "\<forall>i<N. stateB ! i = Some (b0 + i)" and b0: "b0 + N \<le> length ns"
  shows "m \<le> N \<Longrightarrow> nodes w = ns @ [node_of es] \<Longrightarrow>
    foldM (\<lambda>i w'. AddEdge w' (length ns) (stateB ! i) ''F'' (Finite 0)) [0..<m] w
    = Inr (w\<lparr> nodes := ns @ [node_of (es @ map (\<lambda>i. (b0 + i, ''F'', Finite 0)) [0..<m])] \<rparr>)"
proof (induction m)
  case 0
  then show ?case by simp
next
  case (Suc m)
  then have m: "m < N" by simp
  have p: "b0 + m < length ns" using b0 m by simp
  show ?case
    using Suc m sB
    by (simp add: foldM_snoc AddEdge_last[OF p])
qed

lemma to_WDAG_trellis:
  assumes all: "HasAllData h" and wf: "hmm_wf h" and T: "NTimepoints h = Inr T" and pos: "0 < T"
  shows "to_WDAG h = Inr (trellis h T)"
proof -
  have ok: "\<forall>t<T. timepoint_ok h t"
    using T all by (auto simp: NTimepoints_def timepoint_ok_def split: if_splits)
  define w0 where "w0 = SetReqStart (empty_WDAG\<lparr> nodes := [node_of []] \<rparr>) 0"
  have w0: "nodes w0 = [node_of []]" by (simp add: w0_def SetReqStart_def)
  define w1 where "w1 = w0\<lparr> nodes := node_of [] # concat (map (layer h) [0..<T]) \<rparr>"
  have loop: "foldM (add_timepoint h 0) [0..<T]
      (w0, replicate (N_states h) None, replicate (N_states h) None)
    = Inr (w1, pointers (N_states h) (A_id (N_states h)) T, pointers (N_states h) (B_id (N_states h)) T)"
    using timepoints_loop[OF wf ok w0, of T] by (simp add: w1_def)
  have len1: "length (nodes w1) = end_id (N_states h) T"
    by (simp add: w1_def end_id_def)
  have sB: "\<forall>i<N_states h.
      pointers (N_states h) (B_id (N_states h)) T ! i = Some (B_id (N_states h) (T - 1) 0 + i)"
    using pos by (simp add: pointers_def B_id_def)
  have b0: "B_id (N_states h) (T - 1) 0 + N_states h \<le> length (nodes w1)"
  proof -
    from pos obtain t' where "T = Suc t'" by (cases T) auto
    then show ?thesis using len1 by (simp add: B_id_def end_id_def)
  qed
  have F: "foldM (\<lambda>i w'. AddEdge w' (length (nodes w1))
                   (pointers (N_states h) (B_id (N_states h)) T ! i) ''F'' (Finite 0))
             [0..<N_states h] (w1\<lparr> nodes := nodes w1 @ [node_of []] \<rparr>)
    = Inr (w1\<lparr> nodes := nodes w1 @ [node_of (F_edges h T)] \<rparr>)"
    using F_edges_loop[OF sB b0, where w = "w1\<lparr> nodes := nodes w1 @ [node_of []] \<rparr>"
        and es = "[]" and m = "N_states h"]
    by (simp add: F_edges_def B_id_def)
  have final: "SetReqEnd (w1\<lparr> nodes := nodes w1 @ [node_of (F_edges h T)] \<rparr>) (length (nodes w1))
      = trellis h T"
    by (simp add: SetReqEnd_def trellis_def w1_def w0_def SetReqStart_def empty_WDAG_def end_id_def)
  have count: "length (nodes (trellis h T)) = 2 * N_states h * T + 2"
    by (simp add: trellis_def)
  have start: "AddNode empty_WDAG = (empty_WDAG\<lparr> nodes := [node_of []] \<rparr>, 0)"
    by (simp add: AddNode_eq empty_WDAG_def)
  show ?thesis
    unfolding to_WDAG_def
    using all
    by (simp add: T start w0_def[symmetric] loop)
       (simp add: AddNode_eq F final count)
qed

lemma layer_index_less:
  assumes "t < n" and "j < 2 * N"
  shows "2 * N * t + j < 2 * N * (n::nat)"
proof -
  from assms(1) have "Suc t \<le> n" by simp
  then have "2 * N * Suc t \<le> 2 * N * n" by (rule mult_le_mono2)
  with assms(2) show ?thesis by simp
qed

lemma nth_layers:
  "t < n \<Longrightarrow> j < 2 * N_states h \<Longrightarrow>
   concat (map (layer h) [0..<n]) ! (2 * N_states h * t + j) = layer h t ! j"
proof (induction n)
  case 0
  then show ?case by simp
next
  case (Suc n)
  show ?case
  proof (cases "t < n")
    case True
    then have "2 * N_states h * t + j < 2 * N_states h * n"
      using Suc.prems(2) by (rule layer_index_less)
    with True Suc show ?thesis by (simp add: nth_append)
  next
    case False
    with Suc.prems have "t = n" by simp
    then show ?thesis by (simp add: nth_append)
  qed
qed

lemma trellis_nth_A:
  assumes "t < T" and "i < N_states h"
  shows "nodes (trellis h T) ! A_id (N_states h) t i = node_of (A_edges h t i)"
proof -
  have j: "i < 2 * N_states h" using assms(2) by simp
  have lt: "2 * N_states h * t + i < 2 * N_states h * T"
    using assms(1) j by (rule layer_index_less)
  have "nodes (trellis h T) ! A_id (N_states h) t i
      = concat (map (layer h) [0..<T]) ! (2 * N_states h * t + i)"
    using lt by (simp add: trellis_def A_id_def nth_append)
  also have "\<dots> = layer h t ! i" using assms(1) j by (rule nth_layers)
  also have "\<dots> = node_of (A_edges h t i)" using assms(2) by (simp add: layer_def nth_append)
  finally show ?thesis .
qed

lemma trellis_nth_B:
  assumes "t < T" and "i < N_states h"
  shows "nodes (trellis h T) ! B_id (N_states h) t i = node_of (B_edges h t i)"
proof -
  have j: "N_states h + i < 2 * N_states h" using assms(2) by simp
  have lt: "2 * N_states h * t + (N_states h + i) < 2 * N_states h * T"
    using assms(1) j by (rule layer_index_less)
  have "nodes (trellis h T) ! B_id (N_states h) t i
      = concat (map (layer h) [0..<T]) ! (2 * N_states h * t + (N_states h + i))"
    using lt by (simp add: trellis_def B_id_def nth_append add.assoc)
  also have "\<dots> = layer h t ! (N_states h + i)" using assms(1) j by (rule nth_layers)
  also have "\<dots> = node_of (B_edges h t i)" using assms(2) by (simp add: layer_def nth_append)
  finally show ?thesis .
qed

lemma trellis_nth_end:
  "nodes (trellis h T) ! end_id (N_states h) T = node_of (F_edges h T)"
  by (simp add: trellis_def end_id_def nth_append)

lemma trellis_nth_start: "nodes (trellis h T) ! 0 = node_of []"
  by (simp add: trellis_def)

text \<open>
  Claim C1, as stated, fails: having all data loaded is not enough.  On the discrete
  example, \<^verbatim>\<open>SetObservations\<close> accepts the empty vector of observations; all data are
  then loaded and there is no timepoint, and \<^verbatim>\<open>to_WDAG\<close>, instead of returning the graph
  of the start node and the end node, passes the pointers \<^verbatim>\<open>stateB[i]\<close>, which are still
  null, to \<^verbatim>\<open>AddEdge\<close> for the edges \<^verbatim>\<open>F\<close>.  \<^verbatim>\<open>SetObservations\<close> also accepts the
  observation 5 where there are two symbols; \<^verbatim>\<open>to_WDAG\<close> then reads
  \<^verbatim>\<open>_symbol_emiss_probs[i][5]\<close> outside the row of state \<open>i\<close>, so that the edge
  \<^verbatim>\<open>E i 5\<close> has no emission log-probability for its weight.
\<close>

theorem to_WDAG_needs_timepoints_and_symbols:
  "SetObservations coin_hmm [] = Inr (coin_hmm\<lparr> observations := [] \<rparr>)
   \<and> HasAllData (coin_hmm\<lparr> observations := [] \<rparr>)
   \<and> NTimepoints (coin_hmm\<lparr> observations := [] \<rparr>) = Inr 0
   \<and> to_WDAG (coin_hmm\<lparr> observations := [] \<rparr>) = Inl (UndefinedBehaviour ''null parent'')
   \<and> SetObservations coin_hmm [0, 5] = Inr (coin_hmm\<lparr> observations := [0, 5] \<rparr>)
   \<and> HasAllData (coin_hmm\<lparr> observations := [0, 5] \<rparr>)
   \<and> NTimepoints (coin_hmm\<lparr> observations := [0, 5] \<rparr>) = Inr 2
   \<and> to_WDAG (coin_hmm\<lparr> observations := [0, 5] \<rparr>)
        = Inl (UndefinedBehaviour ''vector index out of range'')"
  by (simp add: SetObservations_def coin_hmm_def build_simps eval_simps)

text \<open>
  Claim C1, amended.  For an HMM with all data loaded, tables of the declared
  dimensions, observations in range and \<open>T\<close> timepoints, \<open>T\<close> at least one, \<^verbatim>\<open>to_WDAG\<close>
  returns a graph of \<open>2 * N * T + 2\<close> nodes.  Node 0 is the start node and has no
  in-edge.  Node \<open>1 + 2 * N * t + i\<close> is \<open>A\<^sub>t[i]\<close>: at the first timepoint its one
  in-edge is \<^verbatim>\<open>S i\<close> from the start node with weight \<open>init_probs[i]\<close>, later its in-edges
  are \<^verbatim>\<open>T i_prev i\<close> from every \<open>B\<^bsub>t-1\<^esub>[i_prev]\<close> with weight
  \<open>trans_probs[i_prev][i]\<close>.  Node \<open>1 + 2 * N * t + N + i\<close> is \<open>B\<^sub>t[i]\<close>: its one in-edge
  is \<^verbatim>\<open>E i s\<close> from \<open>A\<^sub>t[i]\<close>, weighted by the emission log-probability, where \<open>s\<close> is
  the observation at \<open>t\<close> on a discrete HMM and \<open>-1\<close> on a continuous one.  The last node
  is the end node: its in-edges are \<^verbatim>\<open>F\<close> with weight 0 from every \<open>B\<^bsub>T-1\<^esub>[i]\<close>.
\<close>

theorem to_WDAG_builds_trellis:
  assumes "HasAllData h" and "hmm_wf h" and "NTimepoints h = Inr T" and "0 < T"
  shows "\<exists>w. to_WDAG h = Inr w
     \<and> length (nodes w) = 2 * N_states h * T + 2
     \<and> req_start w = Some 0
     \<and> req_end w = Some (2 * N_states h * T + 1)
     \<and> in_edges (nodes w ! 0) = []
     \<and> (\<forall>t<T. \<forall>i<N_states h.
          in_edges (nodes w ! (1 + 2 * N_states h * t + i))
            = (if t = 0 then [(0, name_S (int i), init_probs h ! i)]
               else map (\<lambda>i_prev. (1 + 2 * N_states h * (t - 1) + N_states h + i_prev,
                                     name_T (int i_prev) (int i),
                                     trans_probs h ! i_prev ! i))
                      [0..<N_states h])
          \<and> in_edges (nodes w ! (1 + 2 * N_states h * t + N_states h + i))
            = [(1 + 2 * N_states h * t + i,
                name_E (int i) (if is_discrete_HMM h then observations h ! t else - 1),
                if is_discrete_HMM h
                then symbol_emiss_probs h ! i ! nat (observations h ! t)
                else time_emiss_probs h ! t ! i)])
     \<and> in_edges (nodes w ! (2 * N_states h * T + 1))
          = map (\<lambda>i. (1 + 2 * N_states h * (T - 1) + N_states h + i, ''F'', Finite 0))
              [0..<N_states h]"
proof -
  have w: "to_WDAG h = Inr (trellis h T)" using assms by (rule to_WDAG_trellis)
  have "length (nodes (trellis h T)) = 2 * N_states h * T + 2"
    by (simp add: trellis_def)
  moreover have "req_start (trellis h T) = Some 0"
    "req_end (trellis h T) = Some (2 * N_states h * T + 1)"
    by (simp_all add: trellis_def end_id_def)
  moreover have "in_edges (nodes (trellis h T) ! 0) = []"
    by (simp add: trellis_nth_start node_of_def)
  moreover have "in_edges (nodes (trellis h T) ! (2 * N_states h * T + 1))
          = map (\<lambda>i. (1 + 2 * N_states h * (T - 1) + N_states h + i, ''F'', Finite 0))
              [0..<N_states h]"
    using trellis_nth_end[of h T] by (simp add: end_id_def node_of_def F_edges_def B_id_def)
  moreover have "in_edges (nodes (trellis h T) ! (1 + 2 * N_states h * t + i))
            = (if t = 0 then [(0, name_S (int i), init_probs h ! i)]
               else map (\<lambda>i_prev. (1 + 2 * N_states h * (t - 1) + N_states h + i_prev,
                                     name_T (int i_prev) (int i),
                                     trans_probs h ! i_prev ! i))
                      [0..<N_states h])"
    if "t < T" "i < N_states h" for t i
    using trellis_nth_A[OF that] by (simp add: A_id_def node_of_def A_edges_def B_id_def)
  moreover have "in_edges (nodes (trellis h T) ! (1 + 2 * N_states h * t + N_states h + i))
            = [(1 + 2 * N_states h * t + i,
                name_E (int i) (if is_discrete_HMM h then observations h ! t else - 1),
                if is_discrete_HMM h
                then symbol_emiss_probs h ! i ! nat (observations h ! t)
                else time_emiss_probs h ! t ! i)]"
    if "t < T" "i < N_states h" for t i
    using trellis_nth_B[OF that] by (simp add: A_id_def node_of_def B_edges_def B_id_def)
  ultimately show ?thesis using w by simp
qed

text \<open>
  The theorem of claim C1 on the continuous example with two states and two timepoints.
\<close>

theorem to_WDAG_builds_trellis_witness:
  "to_WDAG ex_hmm = Inr ex_trellis \<and> length (nodes ex_trellis) = 2 * 2 * 2 + 2
   \<and> in_edges (nodes ex_trellis ! 5) = [(3, ''T 0 0'', Finite 0), (4, ''T 1 0'', MinusInf)]"
proof -
  have a: "HasAllData ex_hmm" "NTimepoints ex_hmm = Inr 2"
    by (simp_all add: ex_hmm_def eval_simps)
  have wf: "hmm_wf ex_hmm"
    by (simp add: hmm_wf_def ex_hmm_def eval_simps)
  show ?thesis
    using to_WDAG_builds_trellis[OF a(1) wf a(2)]
    by (intro conjI) (rule ex_trellis, simp_all (no_asm) add: ex_trellis_def)
qed

section \<open>Baum-Welch re-estimation\<close>

lemma dadd_commute: "dadd a b = dadd b a"
  by (cases a; cases b) simp_all

lemma dadd_assoc: "dadd (dadd a b) c = dadd a (dadd b c)"
  by (cases a; cases b; cases c) simp_all

lemma posterior_eq:
  "dadd (dadd (fw_prob pn) (bw_prob cn)) wt = dadd (dadd (fw_prob pn) wt) (bw_prob cn)"
  by (simp add: dadd_assoc dadd_commute[of wt])

lemma lnsum2_eq_Inr:
  "lnsum2 lnsum acc S1 S2 p = Inr c \<longleftrightarrow>
     (\<exists>i j. S1 = Some (int i) \<and> S2 = Some (int j) \<and> i < length acc \<and> j < length (acc ! i)
        \<and> c = acc[i := (acc ! i)[j := lnsum (acc ! i ! j) p]])"
  apply (simp add: lnsum2_def ebind_eq_Inr index_eq_Inr)
  apply (rule iffI)
   apply clarsimp
  subgoal for i j by (rule exI[of _ "nat i"], simp, rule exI[of _ "nat j"], auto simp: nat_less_iff)
  apply clarsimp
  done

lemma lnsum1_eq_Inr:
  "lnsum1 lnsum acc S1 p = Inr c \<longleftrightarrow>
     (\<exists>i. S1 = Some (int i) \<and> i < length acc \<and> c = acc[i := lnsum (acc ! i) p])"
  apply (simp add: lnsum1_def ebind_eq_Inr index_eq_Inr)
  apply (rule iffI)
   apply clarsimp
  subgoal for i by (rule exI[of _ "nat i"], auto simp: nat_less_iff)
  apply clarsimp
  done

lemma index_eq_Inr_nat:
  "index v n = Inr k \<longleftrightarrow> v = Some (int k) \<and> k < n"
  by (auto simp: index_def split: option.splits)

text \<open>One edge of the Baum-Welch loop, by the kind of the edge.\<close>

lemma bw_edge_Inr:
  assumes "bw_edge lnsum h w c (p, name, wt) a = Inr a'"
  shows "p < length (nodes w) \<and> c < length (nodes w) \<and> known_type (fst (parse_edge_name name))"
  using assms
  by (auto simp: bw_edge_def ebind_eq_Inr vec_get_eq_Inr Let_def split: prod.splits if_splits)

lemma bw_edge_S:
  assumes "bw_edge lnsum h w c (p, name, wt) a = Inr a'"
    and "fst (parse_edge_name name) = Some CHR ''S''"
  shows "\<exists>i. fst (snd (parse_edge_name name)) = Some (int i) \<and> i < length (new_init_probs a)
           \<and> a' = a\<lparr> new_init_probs := (new_init_probs a)[i := posterior w (c, p, name, wt)] \<rparr>"
  using assms
  by (auto simp: bw_edge_def ebind_eq_Inr vec_get_eq_Inr Let_def index_eq_Inr_nat posterior_def
        posterior_eq split: prod.splits if_splits)

lemma bw_edge_T:
  assumes "bw_edge lnsum h w c (p, name, wt) a = Inr a'"
    and "fst (parse_edge_name name) = Some CHR ''T''"
  shows "\<exists>i j. parse_edge_name name = (Some CHR ''T'', Some (int i), Some (int j))
           \<and> i < length (new_trans_probs a) \<and> j < length (new_trans_probs a ! i)
           \<and> a' = a\<lparr> new_trans_probs := (new_trans_probs a)
                       [i := (new_trans_probs a ! i)
                          [j := lnsum (new_trans_probs a ! i ! j) (posterior w (c, p, name, wt))]] \<rparr>"
  using assms
  by (auto simp: bw_edge_def ebind_eq_Inr vec_get_eq_Inr Let_def lnsum2_eq_Inr posterior_def
        posterior_eq split: prod.splits if_splits)

lemma bw_edge_E:
  assumes "bw_edge lnsum h w c (p, name, wt) a = Inr a'"
    and "fst (parse_edge_name name) = Some CHR ''E''"
  shows "\<exists>i S2. parse_edge_name name = (Some CHR ''E'', Some (int i), S2)
           \<and> i < length (new_state_freqs a)
           \<and> (if is_discrete_HMM h
               then \<exists>k. S2 = Some (int k) \<and> i < length (new_emiss_probs a)
                      \<and> k < length (new_emiss_probs a ! i)
                      \<and> a' = a\<lparr> new_emiss_probs := (new_emiss_probs a)
                                  [i := (new_emiss_probs a ! i)
                                     [k := lnsum (new_emiss_probs a ! i ! k) (posterior w (c, p, name, wt))]],
                               new_state_freqs := (new_state_freqs a)
                                  [i := lnsum (new_state_freqs a ! i) (posterior w (c, p, name, wt))],
                               n_emissions := n_emissions a + 1 \<rparr>
               else a' = a\<lparr> new_state_freqs := (new_state_freqs a)
                                  [i := lnsum (new_state_freqs a ! i) (posterior w (c, p, name, wt))],
                               n_emissions := n_emissions a + 1 \<rparr>)"
  using assms
  by (auto simp: bw_edge_def ebind_eq_Inr vec_get_eq_Inr Let_def lnsum2_eq_Inr lnsum1_eq_Inr
        posterior_def posterior_eq split: prod.splits if_splits)

lemma bw_edge_F:
  assumes "bw_edge lnsum h w c (p, name, wt) a = Inr a'"
    and "fst (parse_edge_name name) \<noteq> Some CHR ''S''"
    and "fst (parse_edge_name name) \<noteq> Some CHR ''T''"
    and "fst (parse_edge_name name) \<noteq> Some CHR ''E''"
  shows "a' = a"
  using assms
  by (auto simp: bw_edge_def ebind_eq_Inr vec_get_eq_Inr Let_def split: prod.splits if_splits)

lemma foldM_cong:
  "(\<And>x s. x \<in> set xs \<Longrightarrow> f x s = g x s) \<Longrightarrow> foldM f xs s = foldM g xs s"
proof (induction xs arbitrary: s)
  case Nil
  show ?case by simp
next
  case (Cons x xs)
  have "f x s = g x s" using Cons.prems by simp
  moreover have "foldM f xs t = foldM g xs t" for t using Cons by simp
  ultimately show ?case by (cases "g x s") simp_all
qed

lemma foldM_map: "foldM f (map k xs) s = foldM (\<lambda>x. f (k x)) xs s"
proof (induction xs arbitrary: s)
  case Nil
  show ?case by simp
next
  case (Cons x xs)
  show ?case by (cases "f (k x) s") (simp_all add: Cons)
qed

lemma foldM_nested:
  "foldM (\<lambda>i. foldM (g i) (es i)) xs s
     = foldM (\<lambda>e. g (fst e) (snd e)) (concat (map (\<lambda>i. map (Pair i) (es i)) xs)) s"
proof (induction xs arbitrary: s)
  case Nil
  show ?case by simp
next
  case (Cons x xs)
  have "foldM (\<lambda>e. g (fst e) (snd e)) (map (Pair x) (es x)) s = foldM (g x) (es x) s"
    by (simp add: foldM_map)
  then show ?case
    by (cases "foldM (g x) (es x) s") (simp_all add: foldM_append Cons)
qed

text \<open>A component of the loop state that every step updates on its own.\<close>

lemma foldM_component:
  assumes step: "\<And>x s s'. f x s = Inr s' \<Longrightarrow> I s \<Longrightarrow> I s' \<and> cell s' = u x (cell s)"
  shows "foldM f xs s = Inr s' \<Longrightarrow> I s \<Longrightarrow> I s' \<and> cell s' = foldl (\<lambda>v x. u x v) (cell s) xs"
proof (induction xs arbitrary: s)
  case Nil
  then show ?case by simp
next
  case (Cons x xs)
  from Cons.prems(1) obtain s1 where 1: "f x s = Inr s1" and 2: "foldM f xs s1 = Inr s'"
    by (auto simp: ebind_eq_Inr)
  from step[OF 1 Cons.prems(2)] have "I s1" "cell s1 = u x (cell s)" by simp_all
  with Cons.IH[OF 2] show ?case by simp
qed

lemma foldl_filter_if:
  "foldl (\<lambda>v x. if Q x then g v x else v) v0 xs = foldl g v0 (filter Q xs)"
  by (induction xs arbitrary: v0) simp_all

lemma foldl_last: "foldl (\<lambda>v x. k x) v0 xs = last (v0 # map k xs)"
  by (induction xs arbitrary: v0) simp_all

lemma foldl_count: "foldl (\<lambda>(v::nat) x. v + (if Q x then 1 else 0)) v0 xs = v0 + length (filter Q xs)"
  by (induction xs arbitrary: v0) simp_all

lemma bw_edges_flat:
  "bw_edges lnsum h w a = foldM (\<lambda>e. bw_edge lnsum h w (fst e) (snd e)) (all_edges w) a"
proof -
  have "bw_edges lnsum h w a
      = foldM (\<lambda>i. foldM (bw_edge lnsum h w i) (in_edges (nodes w ! i))) [0..<length (nodes w)] a"
    unfolding bw_edges_def by (rule foldM_cong) simp
  also have "\<dots> = foldM (\<lambda>e. bw_edge lnsum h w (fst e) (snd e)) (all_edges w) a"
    unfolding all_edges_def by (rule foldM_nested)
  finally show ?thesis .
qed

lemma bw_step:
  assumes r: "bw_edge lnsum h w c (p, name, wt) a = Inr a'" and d: "bw_dims h a"
  shows "bw_step_spec lnsum h name (posterior w (c, p, name, wt)) a a' i j k"
proof -
  let ?P = "posterior w (c, p, name, wt)"
  consider (S) "fst (parse_edge_name name) = Some CHR ''S''"
    | (T) "fst (parse_edge_name name) = Some CHR ''T''"
    | (E) "fst (parse_edge_name name) = Some CHR ''E''"
    | (F) "fst (parse_edge_name name) \<noteq> Some CHR ''S''" "fst (parse_edge_name name) \<noteq> Some CHR ''T''"
          "fst (parse_edge_name name) \<noteq> Some CHR ''E''"
    by blast
  then show ?thesis
  proof cases
    case S
    from bw_edge_S[OF r S] obtain i0 where
      s1: "fst (snd (parse_edge_name name)) = Some (int i0)" and i0: "i0 < length (new_init_probs a)"
      and a': "a' = a\<lparr> new_init_probs := (new_init_probs a)[i0 := ?P] \<rparr>"
      by blast
    have "bw_dims h a'" using d by (simp add: bw_dims_def a')
    moreover have "is_S i name \<longleftrightarrow> i = i0" using S s1 by (auto simp: is_S_def)
    moreover have "\<not> is_T i j name" "\<not> is_E name" "\<not> is_E_sym i k name"
      using S by (auto simp: is_T_def is_E_def is_E_sym_def)
    ultimately show ?thesis
      using i0 by (simp add: bw_step_spec_def a' nth_list_update)
  next
    case T
    from bw_edge_T[OF r T] obtain i0 j0 where
      p: "parse_edge_name name = (Some CHR ''T'', Some (int i0), Some (int j0))"
      and i0: "i0 < length (new_trans_probs a)" and j0: "j0 < length (new_trans_probs a ! i0)"
      and a': "a' = a\<lparr> new_trans_probs := (new_trans_probs a)
                       [i0 := (new_trans_probs a ! i0)
                          [j0 := lnsum (new_trans_probs a ! i0 ! j0) ?P]] \<rparr>"
      by blast
    have rowlen: "length (new_trans_probs a ! i0) = N_states h"
      using d i0 by (simp add: bw_dims_def list_all_length)
    have "bw_dims h a'" using d i0 rowlen by (simp add: bw_dims_def a' list_all_update)
    moreover have "is_T i j name \<longleftrightarrow> i = i0 \<and> j = j0" by (auto simp: is_T_def p)
    moreover have "\<not> is_S i name" "\<not> is_E name" "\<not> is_E_sym i k name"
      by (simp_all add: is_S_def is_E_def is_E_sym_def p)
    ultimately show ?thesis
      using i0 j0 by (simp add: bw_step_spec_def a' nth2_update)
  next
    case E
    from bw_edge_E[OF r E] obtain i0 S2 where
      p: "parse_edge_name name = (Some CHR ''E'', Some (int i0), S2)"
      and i0: "i0 < length (new_state_freqs a)"
      and rest: "if is_discrete_HMM h
               then \<exists>k. S2 = Some (int k) \<and> i0 < length (new_emiss_probs a)
                      \<and> k < length (new_emiss_probs a ! i0)
                      \<and> a' = a\<lparr> new_emiss_probs := (new_emiss_probs a)
                                  [i0 := (new_emiss_probs a ! i0)
                                     [k := lnsum (new_emiss_probs a ! i0 ! k) ?P]],
                               new_state_freqs := (new_state_freqs a)
                                  [i0 := lnsum (new_state_freqs a ! i0) ?P],
                               n_emissions := n_emissions a + 1 \<rparr>
               else a' = a\<lparr> new_state_freqs := (new_state_freqs a)
                                  [i0 := lnsum (new_state_freqs a ! i0) ?P],
                               n_emissions := n_emissions a + 1 \<rparr>"
      by blast
    have isE: "is_E name" "E_state name = int i0" "\<not> is_T i j name" "\<not> is_S i name"
      by (simp_all add: is_E_def E_state_def is_T_def is_S_def p)
    show ?thesis
    proof (cases "is_discrete_HMM h")
      case True
      with rest obtain k0 where S2: "S2 = Some (int k0)" and i0': "i0 < length (new_emiss_probs a)"
        and k0: "k0 < length (new_emiss_probs a ! i0)"
        and a': "a' = a\<lparr> new_emiss_probs := (new_emiss_probs a)
                                  [i0 := (new_emiss_probs a ! i0)
                                     [k0 := lnsum (new_emiss_probs a ! i0 ! k0) ?P]],
                               new_state_freqs := (new_state_freqs a)
                                  [i0 := lnsum (new_state_freqs a ! i0) ?P],
                               n_emissions := n_emissions a + 1 \<rparr>"
        by auto
      have rowlen: "length (new_emiss_probs a ! i0) = N_symbols h"
        using d i0' by (simp add: bw_dims_def list_all_length)
      have "bw_dims h a'" using d i0 rowlen by (simp add: bw_dims_def a' list_all_update)
      moreover have "is_E_sym i k name \<longleftrightarrow> i = i0 \<and> k = k0" by (auto simp: is_E_sym_def p S2)
      ultimately show ?thesis
        using isE i0 i0' k0 True
        by (auto simp add: bw_step_spec_def a' nth2_update nth_list_update)
    next
      case False
      with rest have a': "a' = a\<lparr> new_state_freqs := (new_state_freqs a)
                                  [i0 := lnsum (new_state_freqs a ! i0) ?P],
                               n_emissions := n_emissions a + 1 \<rparr>" by simp
      have "bw_dims h a'" using d i0 by (simp add: bw_dims_def a')
      then show ?thesis
        using isE i0 False by (auto simp add: bw_step_spec_def a' nth_list_update)
    qed
  next
    case F
    from bw_edge_F[OF r F] have "a' = a" .
    moreover have "\<not> is_E name" "\<not> is_T i j name" "\<not> is_E_sym i k name" "\<not> is_S i name"
      using F by (auto simp: is_E_def is_T_def is_E_sym_def is_S_def)
    ultimately show ?thesis using d by (simp add: bw_step_spec_def)
  qed
qed

lemma bw_step_e:
  assumes "bw_edge lnsum h w (fst e) (snd e) a = Inr a'" and "bw_dims h a"
  shows "bw_step_spec lnsum h (edge_name e) (posterior w e) a a' i j k"
proof -
  obtain c p name wt where e: "e = (c, p, name, wt)" by (cases e) auto
  show ?thesis using bw_step[of lnsum h w c p name wt a a'] assms by (simp add: e edge_name_def)
qed

lemma initial_sums_dims: "bw_dims h (initial_sums LOG_ZERO h)"
  by (simp add: bw_dims_def initial_sums_def list_all_length)

lemma foldl_lnsum_filter:
  "foldl (\<lambda>v e. if Q (edge_name e) then lnsum v (posterior w e) else v) v0 es
     = foldl lnsum v0 (map (posterior w) (filter (\<lambda>e. Q (edge_name e)) es))"
  by (induction es arbitrary: v0) simp_all

lemma foldl_assign_filter:
  "foldl (\<lambda>v e. if Q (edge_name e) then posterior w e else v) v0 es
     = last (v0 # map (posterior w) (filter (\<lambda>e. Q (edge_name e)) es))"
  by (induction es arbitrary: v0) simp_all

lemma bw_edges_sums:
  assumes run: "bw_edges lnsum h w (initial_sums LOG_ZERO h) = Inr a"
  shows "bw_dims h a"
    and "i < N_states h \<Longrightarrow> new_init_probs a ! i = sum_init LOG_ZERO w i"
    and "i < N_states h \<Longrightarrow> j < N_states h \<Longrightarrow>
           new_trans_probs a ! i ! j = sum_trans lnsum LOG_ZERO w i j"
    and "is_discrete_HMM h \<Longrightarrow> i < N_states h \<Longrightarrow> k < N_symbols h \<Longrightarrow>
           new_emiss_probs a ! i ! k = sum_emiss lnsum LOG_ZERO w i k"
    and "i < N_states h \<Longrightarrow> new_state_freqs a ! i = sum_state lnsum LOG_ZERO w i"
    and "n_emissions a = length (filter (\<lambda>e. is_E (edge_name e)) (all_edges w))"
proof -
  let ?f = "\<lambda>e. bw_edge lnsum h w (fst e) (snd e)"
  let ?a0 = "initial_sums LOG_ZERO h"
  have fold: "foldM ?f (all_edges w) ?a0 = Inr a"
    using run by (simp add: bw_edges_flat)
  note d0 = initial_sums_dims[of h LOG_ZERO]
  have init: "bw_dims h a \<and> new_init_probs a ! i
        = foldl (\<lambda>v e. if is_S i (edge_name e) then posterior w e else v)
            (new_init_probs ?a0 ! i) (all_edges w)"
    if "i < N_states h"
    using fold d0
  proof (rule foldM_component[where I = "bw_dims h" and cell = "\<lambda>a. new_init_probs a ! i", rotated])
    fix x s s' assume "?f x s = Inr s'" "bw_dims h s"
    from bw_step_e[OF this, of i j k] that
    show "bw_dims h s' \<and> new_init_probs s' ! i
        = (if is_S i (edge_name x) then posterior w x else new_init_probs s ! i)"
      by (simp add: bw_step_spec_def)
  qed
  have trans: "bw_dims h a \<and> new_trans_probs a ! i ! j
        = foldl (\<lambda>v e. if is_T i j (edge_name e) then lnsum v (posterior w e) else v)
            (new_trans_probs ?a0 ! i ! j) (all_edges w)"
    if "i < N_states h" "j < N_states h"
    using fold d0
  proof (rule foldM_component[where I = "bw_dims h" and cell = "\<lambda>a. new_trans_probs a ! i ! j", rotated])
    fix x s s' assume "?f x s = Inr s'" "bw_dims h s"
    from bw_step_e[OF this, of i j k] that
    show "bw_dims h s' \<and> new_trans_probs s' ! i ! j
        = (if is_T i j (edge_name x) then lnsum (new_trans_probs s ! i ! j) (posterior w x)
           else new_trans_probs s ! i ! j)"
      by (simp add: bw_step_spec_def)
  qed
  have emiss: "bw_dims h a \<and> new_emiss_probs a ! i ! k
        = foldl (\<lambda>v e. if is_E_sym i k (edge_name e) then lnsum v (posterior w e) else v)
            (new_emiss_probs ?a0 ! i ! k) (all_edges w)"
    if "is_discrete_HMM h" "i < N_states h" "k < N_symbols h"
    using fold d0
  proof (rule foldM_component[where I = "bw_dims h" and cell = "\<lambda>a. new_emiss_probs a ! i ! k", rotated])
    fix x s s' assume "?f x s = Inr s'" "bw_dims h s"
    from bw_step_e[OF this, of i j k] that
    show "bw_dims h s' \<and> new_emiss_probs s' ! i ! k
        = (if is_E_sym i k (edge_name x) then lnsum (new_emiss_probs s ! i ! k) (posterior w x)
           else new_emiss_probs s ! i ! k)"
      by (simp add: bw_step_spec_def)
  qed
  have state: "bw_dims h a \<and> new_state_freqs a ! i
        = foldl (\<lambda>v e. if is_E (edge_name e) \<and> E_state (edge_name e) = int i
                         then lnsum v (posterior w e) else v)
            (new_state_freqs ?a0 ! i) (all_edges w)"
    if "i < N_states h"
    using fold d0
  proof (rule foldM_component[where I = "bw_dims h" and cell = "\<lambda>a. new_state_freqs a ! i", rotated])
    fix x s s' assume "?f x s = Inr s'" "bw_dims h s"
    from bw_step_e[OF this, of i j k] that
    show "bw_dims h s' \<and> new_state_freqs s' ! i
        = (if is_E (edge_name x) \<and> E_state (edge_name x) = int i
           then lnsum (new_state_freqs s ! i) (posterior w x) else new_state_freqs s ! i)"
      by (simp add: bw_step_spec_def)
  qed
  have count: "bw_dims h a \<and> n_emissions a
        = foldl (\<lambda>v e. v + (if is_E (edge_name e) then 1 else 0)) (n_emissions ?a0) (all_edges w)"
    using fold d0
  proof (rule foldM_component[where I = "bw_dims h" and cell = n_emissions, rotated])
    fix x s s' assume "?f x s = Inr s'" "bw_dims h s"
    from bw_step_e[OF this, of i j k]
    show "bw_dims h s' \<and> n_emissions s' = n_emissions s + (if is_E (edge_name x) then 1 else 0)"
      by (simp add: bw_step_spec_def)
  qed
  show "bw_dims h a" using count by simp
  show "i < N_states h \<Longrightarrow> new_init_probs a ! i = sum_init LOG_ZERO w i"
    using init by (simp add: foldl_assign_filter sum_init_def posteriors_def initial_sums_def)
  show "i < N_states h \<Longrightarrow> j < N_states h \<Longrightarrow>
           new_trans_probs a ! i ! j = sum_trans lnsum LOG_ZERO w i j"
    using trans by (simp add: foldl_lnsum_filter sum_trans_def posteriors_def initial_sums_def)
  show "is_discrete_HMM h \<Longrightarrow> i < N_states h \<Longrightarrow> k < N_symbols h \<Longrightarrow>
           new_emiss_probs a ! i ! k = sum_emiss lnsum LOG_ZERO w i k"
    using emiss by (simp add: foldl_lnsum_filter sum_emiss_def posteriors_def initial_sums_def)
  show "i < N_states h \<Longrightarrow> new_state_freqs a ! i = sum_state lnsum LOG_ZERO w i"
    using state
      foldl_lnsum_filter[of "\<lambda>name. is_E name \<and> E_state name = int i" lnsum w LOG_ZERO "all_edges w"]
    by (simp add: sum_state_def posteriors_def initial_sums_def)
  show "n_emissions a = length (filter (\<lambda>e. is_E (edge_name e)) (all_edges w))"
    using count by (simp add: foldl_count initial_sums_def)
qed

lemma lnsum_total_over:
  "(\<And>j. j < n \<Longrightarrow> acc ! j = f j) \<Longrightarrow> lnsum_total lnsum LOG_ZERO n acc = lnsum_over lnsum LOG_ZERO n f"
proof -
  assume a: "\<And>j. j < n \<Longrightarrow> acc ! j = f j"
  have "lnsum_total lnsum LOG_ZERO n acc = foldl lnsum LOG_ZERO (map (\<lambda>j. acc ! j) [0..<n])"
    by (simp add: lnsum_total_def foldl_map)
  also have "map (\<lambda>j. acc ! j) [0..<n] = map f [0..<n]" using a by simp
  finally show ?thesis by (simp add: lnsum_over_def)
qed

lemma AdjustProbsToBaumWelch_Inr:
  assumes "AdjustProbsToBaumWelch LOG_ZERO lnsum h w = Inr (h', change)"
  shows "\<exists>a T. bw_edges lnsum h w (initial_sums LOG_ZERO h) = Inr a \<and> NTimepoints h = Inr T
           \<and> n_emissions a = T * N_states h \<and> h' = bw_result LOG_ZERO lnsum h a"
proof -
  from assms obtain a T r1 r2 where
    a: "bw_edges lnsum h w (initial_sums LOG_ZERO h) = Inr a" and T: "NTimepoints h = Inr T"
    and n: "n_emissions a = T * N_states h"
    and r1: "assign_row (\<lambda>j. dsub (new_init_probs a ! j)
                                 (lnsum_total lnsum LOG_ZERO (N_states h) (new_init_probs a)))
                 (N_states h) (init_probs h, False) = Inr r1"
    and r2: "assign_table (\<lambda>i j. dsub (new_trans_probs a ! i ! j)
                                  (lnsum_total lnsum LOG_ZERO (N_states h) (new_trans_probs a ! i)))
                  (N_states h) (N_states h) (trans_probs h, snd r1) = Inr r2"
    and rest: "(if is_discrete_HMM h then
            ebind (assign_table (\<lambda>i j. dsub (new_emiss_probs a ! i ! j)
                                     (lnsum_total lnsum LOG_ZERO (N_symbols h) (new_emiss_probs a ! i)))
                     (N_states h) (N_symbols h) (symbol_emiss_probs h, snd r2))
              (\<lambda>(ep, change2). Inr (h\<lparr> state_freqs :=
                     map (\<lambda>j. dexp (dsub (new_state_freqs a ! j)
                                  (lnsum_total lnsum LOG_ZERO (N_states h) (new_state_freqs a))))
                       [0..<N_states h], init_probs := fst r1, trans_probs := fst r2,
                     symbol_emiss_probs := ep \<rparr>, change2))
          else Inr (h\<lparr> state_freqs :=
                     map (\<lambda>j. dexp (dsub (new_state_freqs a ! j)
                                  (lnsum_total lnsum LOG_ZERO (N_states h) (new_state_freqs a))))
                       [0..<N_states h], init_probs := fst r1, trans_probs := fst r2 \<rparr>, snd r2))
         = Inr (h', change)"
    by (auto simp: AdjustProbsToBaumWelch_def ebind_eq_Inr Let_def split: if_splits prod.splits)
  from r1 have r1': "fst r1 = map (\<lambda>j. dsub (new_init_probs a ! j)
                                 (lnsum_total lnsum LOG_ZERO (N_states h) (new_init_probs a)))
                       [0..<N_states h] @ drop (N_states h) (init_probs h)"
    by (auto simp: assign_row_eq_Inr)
  from r2 have r2': "fst r2 = fst (table_closed (\<lambda>i j. dsub (new_trans_probs a ! i ! j)
                                  (lnsum_total lnsum LOG_ZERO (N_states h) (new_trans_probs a ! i)))
                           (N_states h) (N_states h) (trans_probs h, False))"
    by (auto simp: assign_table_eq_Inr table_closed_def)
  show ?thesis
  proof (cases "is_discrete_HMM h")
    case True
    with rest obtain ep c2 where
      r3: "assign_table (\<lambda>i j. dsub (new_emiss_probs a ! i ! j)
                                     (lnsum_total lnsum LOG_ZERO (N_symbols h) (new_emiss_probs a ! i)))
                     (N_states h) (N_symbols h) (symbol_emiss_probs h, snd r2) = Inr (ep, c2)"
      and h': "h' = h\<lparr> state_freqs :=
                     map (\<lambda>j. dexp (dsub (new_state_freqs a ! j)
                                  (lnsum_total lnsum LOG_ZERO (N_states h) (new_state_freqs a))))
                       [0..<N_states h], init_probs := fst r1, trans_probs := fst r2,
                     symbol_emiss_probs := ep \<rparr>"
      by (auto simp: ebind_eq_Inr)
    from r3 have "ep = fst (table_closed (\<lambda>i j. dsub (new_emiss_probs a ! i ! j)
                                     (lnsum_total lnsum LOG_ZERO (N_symbols h) (new_emiss_probs a ! i)))
                           (N_states h) (N_symbols h) (symbol_emiss_probs h, False))"
      by (auto simp: assign_table_eq_Inr table_closed_def)
    with True h' r1' r2' a T n show ?thesis by (simp add: bw_result_def)
  next
    case False
    with rest r1' r2' a T n show ?thesis by (auto simp: bw_result_def)
  qed
qed

text \<open>
  Claim C2.  After a Baum-Welch re-estimation on a solved graph \<open>w\<close>, the tables hold
  the normalised sums of the posterior log-masses \<open>fw[parent] + weight + bw[child]\<close> of
  the edges of \<open>w\<close>, taken in the order of the nodes and of their in-edges: entry \<open>j\<close>
  of \<open>init_probs\<close> is the posterior of the (last) edge \<^verbatim>\<open>S j\<close>, or \<^verbatim>\<open>LOG_ZERO\<close> when
  there is none, minus the \<^verbatim>\<open>lnsum\<close> total over all \<open>j\<close>; entry \<open>(i, j)\<close> of
  \<open>trans_probs\<close> is the \<^verbatim>\<open>lnsum\<close>, started at \<^verbatim>\<open>LOG_ZERO\<close>, of the posteriors of the
  edges \<^verbatim>\<open>T i j\<close>, minus the \<^verbatim>\<open>lnsum\<close> total of row \<open>i\<close>; on a discrete HMM the symbol
  emissions are set in the same way from the edges \<^verbatim>\<open>E i k\<close>; and \<open>state_freqs[j]\<close> is
  the exponential of the \<^verbatim>\<open>lnsum\<close> over the emission edges of state \<open>j\<close> minus the
  \<^verbatim>\<open>lnsum\<close> total over all states.
\<close>

theorem AdjustProbsToBaumWelch_posteriors:
  assumes run: "AdjustProbsToBaumWelch LOG_ZERO lnsum h w = Inr (h', change)"
  shows "(\<forall>j<N_states h.
            init_probs h' ! j
              = dsub (sum_init LOG_ZERO w j)
                     (lnsum_over lnsum LOG_ZERO (N_states h) (sum_init LOG_ZERO w)))
       \<and> (\<forall>i<N_states h. \<forall>j<N_states h.
            trans_probs h' ! i ! j
              = dsub (sum_trans lnsum LOG_ZERO w i j)
                     (lnsum_over lnsum LOG_ZERO (N_states h) (sum_trans lnsum LOG_ZERO w i)))
       \<and> (is_discrete_HMM h \<longrightarrow> (\<forall>i<N_states h. \<forall>k<N_symbols h.
            symbol_emiss_probs h' ! i ! k
              = dsub (sum_emiss lnsum LOG_ZERO w i k)
                     (lnsum_over lnsum LOG_ZERO (N_symbols h) (sum_emiss lnsum LOG_ZERO w i))))
       \<and> length (state_freqs h') = N_states h
       \<and> (\<forall>j<N_states h.
            state_freqs h' ! j
              = dexp (dsub (sum_state lnsum LOG_ZERO w j)
                       (lnsum_over lnsum LOG_ZERO (N_states h) (sum_state lnsum LOG_ZERO w))))"
proof -
  from AdjustProbsToBaumWelch_Inr[OF run] obtain a where
    a: "bw_edges lnsum h w (initial_sums LOG_ZERO h) = Inr a" and h': "h' = bw_result LOG_ZERO lnsum h a"
    by blast
  note s = bw_edges_sums[OF a]
  have Zi: "lnsum_total lnsum LOG_ZERO (N_states h) (new_init_probs a)
              = lnsum_over lnsum LOG_ZERO (N_states h) (sum_init LOG_ZERO w)"
    by (rule lnsum_total_over) (rule s(2))
  have Zs: "lnsum_total lnsum LOG_ZERO (N_states h) (new_state_freqs a)
              = lnsum_over lnsum LOG_ZERO (N_states h) (sum_state lnsum LOG_ZERO w)"
    by (rule lnsum_total_over) (rule s(5))
  have Zt: "lnsum_total lnsum LOG_ZERO (N_states h) (new_trans_probs a ! i)
              = lnsum_over lnsum LOG_ZERO (N_states h) (sum_trans lnsum LOG_ZERO w i)"
    if "i < N_states h" for i
    by (rule lnsum_total_over) (rule s(3)[OF that])
  have Ze: "lnsum_total lnsum LOG_ZERO (N_symbols h) (new_emiss_probs a ! i)
              = lnsum_over lnsum LOG_ZERO (N_symbols h) (sum_emiss lnsum LOG_ZERO w i)"
    if "is_discrete_HMM h" "i < N_states h" for i
    by (rule lnsum_total_over) (rule s(4)[OF that])
  show ?thesis
  proof (intro conjI allI impI)
    fix j assume j: "j < N_states h"
    show "init_probs h' ! j = dsub (sum_init LOG_ZERO w j)
                     (lnsum_over lnsum LOG_ZERO (N_states h) (sum_init LOG_ZERO w))"
      using j by (simp add: h' bw_result_def Let_def nth_append Zi s(2))
    show "state_freqs h' ! j = dexp (dsub (sum_state lnsum LOG_ZERO w j)
                       (lnsum_over lnsum LOG_ZERO (N_states h) (sum_state lnsum LOG_ZERO w)))"
      using j by (simp add: h' bw_result_def Let_def Zs s(5))
  next
    fix i j assume "i < N_states h" "j < N_states h"
    then show "trans_probs h' ! i ! j = dsub (sum_trans lnsum LOG_ZERO w i j)
                     (lnsum_over lnsum LOG_ZERO (N_states h) (sum_trans lnsum LOG_ZERO w i))"
      by (simp add: h' bw_result_def Let_def table_closed_nth Zt s(3))
  next
    fix i k assume "is_discrete_HMM h" "i < N_states h" "k < N_symbols h"
    then show "symbol_emiss_probs h' ! i ! k = dsub (sum_emiss lnsum LOG_ZERO w i k)
                     (lnsum_over lnsum LOG_ZERO (N_symbols h) (sum_emiss lnsum LOG_ZERO w i))"
      by (simp add: h' bw_result_def Let_def table_closed_nth Ze s(4))
  next
    show "length (state_freqs h') = N_states h"
      by (simp add: h' bw_result_def Let_def)
  qed
qed

lemma bw_edge_ok:
  assumes d: "bw_dims h a" and p: "p < length (nodes w)" and c: "c < length (nodes w)"
    and ok: "name_ok h name"
  shows "\<exists>a'. bw_edge lnsum h w c (p, name, wt) a = Inr a'"
proof -
  obtain ty S1 S2 where pe: "parse_edge_name name = (ty, S1, S2)"
    by (cases "parse_edge_name name") auto
  have rows: "\<And>i. i < N_states h \<Longrightarrow> length (new_trans_probs a ! i) = N_states h"
    "\<And>i. i < N_states h \<Longrightarrow> length (new_emiss_probs a ! i) = N_symbols h"
    using d by (simp_all add: bw_dims_def list_all_length)
  have lens: "length (new_init_probs a) = N_states h" "length (new_trans_probs a) = N_states h"
    "length (new_emiss_probs a) = N_states h" "length (new_state_freqs a) = N_states h"
    using d by (simp_all add: bw_dims_def)
  from ok show ?thesis
    using p c
    by (auto simp: name_ok_def pe bw_edge_def known_type_def Let_def lnsum2_def lnsum1_def
          rows lens)
qed

lemma foldM_ok:
  assumes "\<And>x s. x \<in> set xs \<Longrightarrow> I s \<Longrightarrow> \<exists>s'. f x s = Inr s' \<and> I s'"
  shows "I s \<Longrightarrow> \<exists>s'. foldM f xs s = Inr s' \<and> I s'"
  using assms
proof (induction xs arbitrary: s)
  case Nil
  then show ?case by simp
next
  case (Cons x xs)
  from Cons.prems(2)[of x s] Cons.prems(1) obtain s1 where 1: "f x s = Inr s1" "I s1" by auto
  from Cons.IH[OF 1(2)] Cons.prems(2) obtain s' where "foldM f xs s1 = Inr s'" "I s'" by auto
  with 1 show ?case by auto
qed

lemma in_all_edges:
  "e \<in> set (all_edges w) \<longleftrightarrow>
     fst e < length (nodes w) \<and> snd e \<in> set (in_edges (nodes w ! fst e))"
  by (cases e) (auto simp: all_edges_def)

lemma bw_edges_ok:
  assumes nodes: "\<forall>node\<in>set (nodes w). node_ok h (length (nodes w)) node"
  shows "\<exists>a. bw_edges lnsum h w (initial_sums LOG_ZERO h) = Inr a \<and> bw_dims h a"
  unfolding bw_edges_flat
proof (rule foldM_ok[where I = "bw_dims h"])
  show "bw_dims h (initial_sums LOG_ZERO h)" by (rule initial_sums_dims)
next
  fix e s assume e: "e \<in> set (all_edges w)" and d: "bw_dims h s"
  obtain c p name wt where eq: "e = (c, p, name, wt)" by (cases e) auto
  from e have c: "c < length (nodes w)" and m: "(p, name, wt) \<in> set (in_edges (nodes w ! c))"
    by (simp_all add: in_all_edges eq)
  from nodes c have "node_ok h (length (nodes w)) (nodes w ! c)" by simp
  with m have p: "p < length (nodes w)" and ok: "name_ok h name"
    by (auto simp: node_ok_def list_all_iff)
  from bw_edge_ok[OF d p c ok] obtain a' where a': "bw_edge lnsum h w c (p, name, wt) s = Inr a'"
    by blast
  from bw_step[OF a' d, of 0 0 0] have "bw_dims h a'" by (simp add: bw_step_spec_def)
  with a' show "\<exists>s'. bw_edge lnsum h w (fst e) (snd e) s = Inr s' \<and> bw_dims h s'"
    by (simp add: eq)
qed

lemma count_all_edges:
  "length (filter (\<lambda>e. Q (edge_name e)) (all_edges w))
     = sum_list (map (\<lambda>node. length (filter (\<lambda>e. Q (fst (snd e))) (in_edges node))) (nodes w))"
proof -
  have "length (filter (\<lambda>e. Q (edge_name e)) (all_edges w))
      = sum_list (map (\<lambda>i. length (filter (\<lambda>e. Q (fst (snd e))) (in_edges (nodes w ! i))))
                    [0..<length (nodes w)])"
    by (simp add: all_edges_def filter_concat length_concat comp_def filter_map edge_name_def)
  also have "\<dots> = sum_list (map (\<lambda>node. length (filter (\<lambda>e. Q (fst (snd e))) (in_edges node))) (nodes w))"
    using map_nth[of "nodes w"]
      map_map[of "\<lambda>node. length (filter (\<lambda>e. Q (fst (snd e))) (in_edges node))" "\<lambda>i. nodes w ! i"
        "[0..<length (nodes w)]"]
    by (simp add: comp_def)
  finally show ?thesis .
qed

lemma is_E_names [simp]:
  "\<not> is_E (name_S i)" "\<not> is_E (name_T i j)" "is_E (name_E i obs)" "\<not> is_E ''F''"
  by (simp_all add: is_E_def parse_name_S parse_name_T parse_name_E parse_name_F)

lemma name_ok_S: "i < N_states h \<Longrightarrow> name_ok h (name_S (int i))"
  by (auto simp: name_ok_def parse_name_S)

lemma name_ok_T: "i < N_states h \<Longrightarrow> j < N_states h \<Longrightarrow> name_ok h (name_T (int i) (int j))"
  by (auto simp: name_ok_def parse_name_T)

lemma name_ok_F: "name_ok h ''F''"
  by (simp add: name_ok_def parse_name_F)

lemma name_ok_E:
  assumes "i < N_states h" and "is_discrete_HMM h \<Longrightarrow> 0 \<le> obs \<and> obs < int (N_symbols h)"
  shows "name_ok h (name_E (int i) obs)"
proof (cases "is_discrete_HMM h")
  case True
  with assms(2) have "nat obs < N_symbols h" "obs = int (nat obs)" by auto
  then have "\<exists>k<N_symbols h. obs = int k" by blast
  with assms(1) show ?thesis by (auto simp: name_ok_def parse_name_E)
next
  case False
  with assms(1) show ?thesis by (auto simp: name_ok_def parse_name_E)
qed

lemma length_trellis: "length (nodes (trellis h T)) = 2 * N_states h * T + 2"
  by (simp add: trellis_def)

lemma set_trellis_nodes:
  "set (nodes (trellis h T))
     = {node_of []} \<union> (\<Union>t\<in>{0..<T}. set (layer h t)) \<union> {node_of (F_edges h T)}"
  by (auto simp: trellis_def)

lemma set_layer:
  "set (layer h t)
     = (\<lambda>i. node_of (A_edges h t i)) ` {0..<N_states h} \<union> (\<lambda>i. node_of (B_edges h t i)) ` {0..<N_states h}"
  by (auto simp: layer_def)

lemma ids_less:
  assumes "t < T" and "i < N"
  shows "A_id N t i < 2 * N * T + 2" and "B_id N t i < 2 * N * T + 2"
proof -
  have "2 * N * t + i < 2 * N * T" using assms by (intro layer_index_less) simp_all
  then show "A_id N t i < 2 * N * T + 2" by (simp add: A_id_def)
  have "2 * N * t + (N + i) < 2 * N * T" using assms by (intro layer_index_less) simp_all
  then show "B_id N t i < 2 * N * T + 2" by (simp add: B_id_def)
qed

lemma trellis_nodes_ok:
  assumes wf: "hmm_wf h" and T: "NTimepoints h = Inr T" and pos: "0 < T"
  shows "\<forall>node\<in>set (nodes (trellis h T)). node_ok h (2 * N_states h * T + 2) node"
proof
  fix node assume "node \<in> set (nodes (trellis h T))"
  then consider (start) "node = node_of []"
    | (A) t i where "t < T" "i < N_states h" "node = node_of (A_edges h t i)"
    | (B) t i where "t < T" "i < N_states h" "node = node_of (B_edges h t i)"
    | (finish) "node = node_of (F_edges h T)"
    by (auto simp: set_trellis_nodes set_layer)
  then show "node_ok h (2 * N_states h * T + 2) node"
  proof cases
    case start
    then show ?thesis by (simp add: node_ok_def node_of_def)
  next
    case A
    show ?thesis
    proof (cases "t = 0")
      case True
      with A show ?thesis by (simp add: node_ok_def node_of_def A_edges_def name_ok_S)
    next
      case False
      then have "t - 1 < T" using A(1) by simp
      then have "\<And>i'. i' < N_states h \<Longrightarrow> B_id (N_states h) (t - 1) i' < 2 * N_states h * T + 2"
        by (rule ids_less)
      with False A show ?thesis
        by (simp add: node_ok_def node_of_def A_edges_def list_all_iff name_ok_T)
    qed
  next
    case B
    have par: "A_id (N_states h) t i < 2 * N_states h * T + 2" using B(1,2) by (rule ids_less)
    have obs: "0 \<le> observations h ! t \<and> observations h ! t < int (N_symbols h)"
      if d: "is_discrete_HMM h"
    proof -
      from T d B(1) have "t < length (observations h)"
        by (auto simp: NTimepoints_def split: if_splits)
      with wf d show ?thesis by (simp add: hmm_wf_def list_all_length)
    qed
    show ?thesis
    proof (cases "is_discrete_HMM h")
      case True
      with B par obs name_ok_E[of i h "observations h ! t"] show ?thesis
        by (simp add: node_ok_def node_of_def B_edges_def)
    next
      case False
      with B par name_ok_E[of i h "- 1"] show ?thesis
        by (simp add: node_ok_def node_of_def B_edges_def)
    qed
  next
    case finish
    from pos have "T - 1 < T" by simp
    then have "\<And>i'. i' < N_states h \<Longrightarrow> B_id (N_states h) (T - 1) i' < 2 * N_states h * T + 2"
      by (rule ids_less)
    with finish show ?thesis
      by (simp add: node_ok_def node_of_def F_edges_def list_all_iff name_ok_F)
  qed
qed

lemma count_E_layer:
  "sum_list (map (\<lambda>node. length (filter (\<lambda>e. is_E (fst (snd e))) (in_edges node))) (layer h t))
     = N_states h"
proof -
  have A: "length (filter (\<lambda>e. is_E (fst (snd e))) (in_edges (node_of (A_edges h t i)))) = 0" for i
    by (simp add: node_of_def A_edges_def filter_empty_conv)
  have B: "length (filter (\<lambda>e. is_E (fst (snd e))) (in_edges (node_of (B_edges h t i)))) = 1" for i
    by (simp add: node_of_def B_edges_def)
  show ?thesis
    by (simp add: layer_def comp_def A B sum_list_replicate del: replicate.simps)
       (simp add: sum_list_triv)
qed

lemma count_E_trellis:
  "length (filter (\<lambda>e. is_E (edge_name e)) (all_edges (trellis h T))) = T * N_states h"
proof -
  have layers: "sum_list (map (\<lambda>node. length (filter (\<lambda>e. is_E (fst (snd e))) (in_edges node)))
                   (concat (map (layer h) [0..<n]))) = n * N_states h" for n
    by (induction n) (simp_all add: count_E_layer)
  have F: "length (filter (\<lambda>e. is_E (fst (snd e))) (in_edges (node_of (F_edges h T)))) = 0"
    by (simp add: node_of_def F_edges_def filter_empty_conv)
  show ?thesis
    unfolding count_all_edges
    by (simp add: trellis_def layers F) (simp add: node_of_def)
qed

lemma all_edges_cong:
  assumes "map in_edges (nodes w') = map in_edges (nodes w)"
  shows "all_edges w' = all_edges w"
proof -
  have len: "length (nodes w') = length (nodes w)"
    using assms by (metis length_map)
  have "in_edges (nodes w' ! i) = in_edges (nodes w ! i)" if "i < length (nodes w)" for i
    using assms that len by (metis nth_map)
  then have "map (\<lambda>i. map (Pair i) (in_edges (nodes w' ! i))) [0..<length (nodes w)]
      = map (\<lambda>i. map (Pair i) (in_edges (nodes w ! i))) [0..<length (nodes w)]"
    by simp
  then show ?thesis unfolding all_edges_def len by (rule arg_cong[where f = concat])
qed

lemma node_ok_cong: "in_edges node' = in_edges node \<Longrightarrow> node_ok h n node' = node_ok h n node"
  by (simp add: node_ok_def)

lemma AdjustProbsToBaumWelch_ok:
  assumes wf: "hmm_wf h" and T: "NTimepoints h = Inr T"
    and a: "bw_edges lnsum h w (initial_sums LOG_ZERO h) = Inr a"
    and n: "n_emissions a = T * N_states h"
  shows "\<exists>h' change. AdjustProbsToBaumWelch LOG_ZERO lnsum h w = Inr (h', change)"
proof -
  have i: "N_states h \<le> length (init_probs h)" using wf by (simp add: hmm_wf_def)
  have t: "N_states h \<le> length (trans_probs h)" "\<forall>i<N_states h. N_states h \<le> length (trans_probs h ! i)"
    using wf by (simp_all add: hmm_wf_def list_all_length)
  have e: "N_states h \<le> length (symbol_emiss_probs h)"
      "\<forall>i<N_states h. N_symbols h \<le> length (symbol_emiss_probs h ! i)"
    if "is_discrete_HMM h"
    using wf that by (simp_all add: hmm_wf_def list_all_length)
  show ?thesis
  proof (cases "is_discrete_HMM h")
    case True
    show ?thesis
      using True e[OF True]
      by (simp add: AdjustProbsToBaumWelch_def a T n Let_def assign_row_closed[OF i]
            assign_table_closed[OF t] assign_table_closed split: prod.splits)
  next
    case False
    show ?thesis
      using False
      by (simp add: AdjustProbsToBaumWelch_def a T n Let_def assign_row_closed[OF i]
            assign_table_closed[OF t] split: prod.splits)
  qed
qed

text \<open>
  Claim C8.  Let \<open>w\<close> be the trellis that \<^verbatim>\<open>to_WDAG\<close> builds for an HMM with all data
  loaded, tables of the declared dimensions, observations in range and \<open>T\<close> timepoints
  (at least one), and let \<open>w'\<close> have the same edges as \<open>w\<close> (a solver changes only the
  scalars of the nodes).  Then the loop of \<^verbatim>\<open>AdjustProbsToBaumWelch\<close> over the edges of
  \<open>w'\<close> runs to its end, the emission counter is \<open>T * N\<close> there, and the whole call
  succeeds: the assertion on the counter does not fail.
\<close>

theorem n_emissions_on_trellis:
  assumes all: "HasAllData h" and wf: "hmm_wf h" and T: "NTimepoints h = Inr T" and pos: "0 < T"
    and w: "to_WDAG h = Inr w"
    and w': "map in_edges (nodes w') = map in_edges (nodes w)"
  shows "\<exists>a. bw_edges lnsum h w' (initial_sums LOG_ZERO h) = Inr a
           \<and> n_emissions a = T * N_states h
           \<and> (\<exists>h' change. AdjustProbsToBaumWelch LOG_ZERO lnsum h w' = Inr (h', change))"
proof -
  have tr: "w = trellis h T"
    using to_WDAG_trellis[OF all wf T pos] w by simp
  have len: "length (nodes w') = 2 * N_states h * T + 2"
    using w' length_trellis[of h T] tr by (metis length_map)
  have ok: "\<forall>node\<in>set (nodes w'). node_ok h (length (nodes w')) node"
  proof
    fix node assume "node \<in> set (nodes w')"
    then have "in_edges node \<in> set (map in_edges (nodes w))"
      using w' by (metis image_eqI list.set_map)
    then obtain node0 where n0: "node0 \<in> set (nodes (trellis h T))" "in_edges node = in_edges node0"
      using tr by auto
    from trellis_nodes_ok[OF wf T pos] n0(1)
    have "node_ok h (2 * N_states h * T + 2) node0" by simp
    then show "node_ok h (length (nodes w')) node"
      using node_ok_cong[OF n0(2)] len by simp
  qed
  from bw_edges_ok[OF ok] obtain a where
    a: "bw_edges lnsum h w' (initial_sums LOG_ZERO h) = Inr a" by blast
  have "n_emissions a = length (filter (\<lambda>e. is_E (edge_name e)) (all_edges w'))"
    by (rule bw_edges_sums(6)[OF a])
  also have "\<dots> = T * N_states h"
    using all_edges_cong[OF w'] tr by (simp add: count_E_trellis)
  finally have n: "n_emissions a = T * N_states h" .
  from AdjustProbsToBaumWelch_ok[OF wf T a n] a n show ?thesis by blast
qed

lemmas bw_simps = AdjustProbsToBaumWelch_def bw_edges_def bw_edge_def lnsum2_def lnsum1_def
  lnsum_total_def initial_sums_def lnsum_exact_def dsub_def Let_def

lemma coin_trellis: "to_WDAG coin_hmm = Inr coin_trellis"
  by (simp add: coin_hmm_def coin_trellis_def coin_edges_def node_of_def build_simps eval_simps)

lemma coin_run:
  "AdjustProbsToBaumWelch MinusInf lnsum_exact coin_hmm coin_solved =
     Inr (coin_hmm\<lparr> init_probs := [Finite 0, MinusInf],
                    trans_probs := [[Finite 0, MinusInf], [NaN, NaN]],
                    state_freqs := [Finite 1, Finite 0],
                    symbol_emiss_probs := [[Finite 0, MinusInf], [NaN, NaN]] \<rparr>, True)"
  by (simp add: coin_hmm_def coin_solved_def coin_edges_def bw_simps eval_simps)

text \<open>
  The theorem of claim C2 on a two-state discrete example, with the forward and backward
  log-masses of its trellis filled in.
\<close>

theorem AdjustProbsToBaumWelch_posteriors_witness:
  "AdjustProbsToBaumWelch MinusInf lnsum_exact coin_hmm coin_solved =
     Inr (coin_hmm\<lparr> init_probs := [Finite 0, MinusInf],
                    trans_probs := [[Finite 0, MinusInf], [NaN, NaN]],
                    state_freqs := [Finite 1, Finite 0],
                    symbol_emiss_probs := [[Finite 0, MinusInf], [NaN, NaN]] \<rparr>, True)"
  using AdjustProbsToBaumWelch_posteriors[OF coin_run]
  by (intro coin_run)

text \<open>
  Claim C7.  A successful \<^verbatim>\<open>AdjustProbsToViterbi\<close>, and so a successful
  \<^verbatim>\<open>ViterbiTraining\<close>, leaves \<open>init_probs\<close> as it was, whatever the path; a successful
  \<^verbatim>\<open>AdjustProbsToBaumWelch\<close> overwrites every entry of \<open>init_probs\<close> with the normalised
  posterior of its start edge.
\<close>

theorem Viterbi_keeps_init_probs:
  "(AdjustProbsToViterbi log_c h path = Inr (h', change, sts) \<longrightarrow> init_probs h' = init_probs h)
   \<and> (ViterbiTraining FindBestPath log_c h = Inr (h', change, sts) \<longrightarrow> init_probs h' = init_probs h)
   \<and> (AdjustProbsToBaumWelch LOG_ZERO lnsum h w = Inr (h'', change') \<longrightarrow>
        (\<forall>j<N_states h.
            init_probs h'' ! j
              = dsub (sum_init LOG_ZERO w j)
                     (lnsum_over lnsum LOG_ZERO (N_states h) (sum_init LOG_ZERO w))))"
proof (intro conjI impI)
  assume "AdjustProbsToViterbi log_c h path = Inr (h', change, sts)"
  from AdjustProbsToViterbi_Inr[OF this] show "init_probs h' = init_probs h"
    by (auto simp: viterbi_result_init_probs)
next
  assume "ViterbiTraining FindBestPath log_c h = Inr (h', change, sts)"
  from ViterbiTraining_Inr[OF this] obtain wdag h0 where
    a: "AdjustProbsToViterbi log_c h (best_edges (FindBestPath wdag)) = Inr (h0, change, sts)"
    and h': "h' = h0\<lparr> ran_viterbi := True \<rparr>"
    by blast
  from AdjustProbsToViterbi_Inr[OF a] h' show "init_probs h' = init_probs h"
    by (auto simp: viterbi_result_init_probs)
next
  assume run: "AdjustProbsToBaumWelch LOG_ZERO lnsum h w = Inr (h'', change')"
  from AdjustProbsToBaumWelch_Inr[OF run] obtain a where
    a: "bw_edges lnsum h w (initial_sums LOG_ZERO h) = Inr a" and h'': "h'' = bw_result LOG_ZERO lnsum h a"
    by blast
  have Zi: "lnsum_total lnsum LOG_ZERO (N_states h) (new_init_probs a)
              = lnsum_over lnsum LOG_ZERO (N_states h) (sum_init LOG_ZERO w)"
    by (rule lnsum_total_over) (rule bw_edges_sums(2)[OF a])
  show "\<forall>j<N_states h.
            init_probs h'' ! j
              = dsub (sum_init LOG_ZERO w j)
                     (lnsum_over lnsum LOG_ZERO (N_states h) (sum_init LOG_ZERO w))"
    by (simp add: h'' bw_result_def Let_def nth_append Zi bw_edges_sums(2)[OF a])
qed

text \<open>
  The theorem of claim C7 on the two examples: the Viterbi run keeps \<open>init_probs\<close>, the
  Baum-Welch run changes it from \<open>[ln (1/2), ln (1/2)]\<close> to \<open>[0, -\<infinity>]\<close>.
\<close>

theorem Viterbi_keeps_init_probs_witness:
  "AdjustProbsToViterbi dlog ex_hmm ex_path =
     Inr (ex_hmm\<lparr> state_freqs := [Finite 1, Finite 0],
                   trans_probs := [[Finite 0, MinusInf], [Finite (- ln 2), Finite (- ln 2)]] \<rparr>,
          True, [0, 0])
   \<and> init_probs (ex_hmm\<lparr> state_freqs := [Finite 1, Finite 0],
                   trans_probs := [[Finite 0, MinusInf], [Finite (- ln 2), Finite (- ln 2)]] \<rparr>)
       = init_probs ex_hmm
   \<and> AdjustProbsToBaumWelch MinusInf lnsum_exact coin_hmm coin_solved =
     Inr (coin_hmm\<lparr> init_probs := [Finite 0, MinusInf],
                    trans_probs := [[Finite 0, MinusInf], [NaN, NaN]],
                    state_freqs := [Finite 1, Finite 0],
                    symbol_emiss_probs := [[Finite 0, MinusInf], [NaN, NaN]] \<rparr>, True)
   \<and> init_probs coin_hmm = [Finite (ln (1 / 2)), Finite (ln (1 / 2))]"
  using Viterbi_keeps_init_probs[of dlog ex_hmm ex_path _ True "[0, 0]" "\<lambda>w. w"
          MinusInf lnsum_exact coin_solved _ True]
  by (intro conjI) (rule ex_run, simp (no_asm), rule coin_run, simp (no_asm) add: coin_hmm_def)

text \<open>
  The theorem of claim C8 on the discrete example: two states, two timepoints, four
  emission edges.
\<close>

theorem n_emissions_on_trellis_witness:
  "\<exists>a. bw_edges lnsum_exact coin_hmm coin_solved (initial_sums MinusInf coin_hmm) = Inr a
       \<and> n_emissions a = 2 * 2"
proof -
  have a: "HasAllData coin_hmm" "NTimepoints coin_hmm = Inr 2"
    by (simp_all add: coin_hmm_def eval_simps)
  have wf: "hmm_wf coin_hmm"
    by (simp add: hmm_wf_def coin_hmm_def eval_simps)
  have m: "map in_edges (nodes coin_solved) = map in_edges (nodes coin_trellis)"
    by (simp add: coin_solved_def coin_trellis_def coin_edges_def node_of_def)
  have N: "N_states coin_hmm = 2" by (simp add: coin_hmm_def HMM_def)
  from n_emissions_on_trellis[OF a(1) wf a(2) _ coin_trellis m, of lnsum_exact MinusInf]
  show ?thesis by (auto simp: N)
qed

section \<open>Paths of the trellis and Viterbi training\<close>

lemma depth_A: "i < N \<Longrightarrow> depth N (A_id N t i) = t"
proof -
  assume i: "i < N"
  then have N: "2 * N \<noteq> 0" and lt: "i + N < 2 * N" by simp_all
  have e: "2 * N * t + i + N = i + N + 2 * N * t" by linarith
  have "(2 * N * t + i + N) div (2 * N) = (i + N + 2 * N * t) div (2 * N)"
    unfolding e by (rule refl)
  also have "\<dots> = (i + N) div (2 * N) + t"
    using div_mult_self2[OF N, of "i + N" t] by (simp only: add.commute)
  also have "\<dots> = t" using lt by simp
  finally show ?thesis by (simp add: depth_def A_id_def)
qed

lemma depth_B: "i < N \<Longrightarrow> depth N (B_id N t i) = Suc t"
proof -
  assume i: "i < N"
  have "2 * N * t + N + i + N = i + 2 * N * Suc t" by simp
  then have "(2 * N * t + N + i + N) div (2 * N) = Suc t" using i by simp
  then show ?thesis by (simp add: depth_def B_id_def)
qed

lemma depth_end: "0 < N \<Longrightarrow> depth N (end_id N T) = T"
  by (simp add: depth_def end_id_def)

lemma trellis_index_cases:
  assumes c: "c < 2 * N * T + 2" and N: "0 < N"
  obtains (start) "c = 0"
    | (A) t i where "t < T" "i < N" "c = A_id N t i"
    | (B) t i where "t < T" "i < N" "c = B_id N t i"
    | (finish) "c = end_id N T"
proof -
  consider "c = 0" | "c = 2 * N * T + 1" | "0 < c" "c - 1 < 2 * N * T" using c by linarith
  then show ?thesis
  proof cases
    case 1
    then show ?thesis by (rule start)
  next
    case 2
    then show ?thesis by (intro finish) (simp add: end_id_def)
  next
    case 3
    define q where "q = (c - 1) div (2 * N)"
    define r where "r = (c - 1) mod (2 * N)"
    have c: "c = 1 + 2 * N * q + r" using 3(1) by (simp add: q_def r_def)
    have r: "r < 2 * N" using N by (simp add: r_def)
    have q: "q < T" using 3(2) N by (simp add: q_def div_less_iff_less_mult mult.commute)
    show ?thesis
    proof (cases "r < N")
      case True
      show ?thesis by (rule A[OF q True]) (simp add: A_id_def c)
    next
      case False
      then have "r - N < N" using r by simp
      then show ?thesis using False by (intro B[OF q, of "r - N"]) (simp_all add: B_id_def c)
    qed
  qed
qed

lemma trellis_edge:
  assumes wf: "hmm_wf h" and T: "NTimepoints h = Inr T" and pos: "0 < T" and N: "0 < N_states h"
    and c: "c < 2 * N_states h * T + 2"
    and e: "(p, name, wt) \<in> set (in_edges (nodes (trellis h T) ! c))"
  shows "depth (N_states h) c = depth (N_states h) p + (if is_E name then 1 else 0)
         \<and> name_ok h name \<and> p < 2 * N_states h * T + 2"
proof -
  have "nodes (trellis h T) ! c \<in> set (nodes (trellis h T))"
    using c by (simp add: length_trellis)
  with trellis_nodes_ok[OF wf T pos] have "node_ok h (2 * N_states h * T + 2) (nodes (trellis h T) ! c)"
    by blast
  with e have ok: "name_ok h name" "p < 2 * N_states h * T + 2"
    by (auto simp: node_ok_def list_all_iff)
  have "depth (N_states h) c = depth (N_states h) p + (if is_E name then 1 else 0)"
    using c N
  proof (cases rule: trellis_index_cases)
    case start
    with e show ?thesis by (simp add: trellis_nth_start node_of_def)
  next
    case (A t i)
    show ?thesis
    proof (cases "t = 0")
      case True
      with e A show ?thesis
        by (auto simp: trellis_nth_A node_of_def A_edges_def depth_A) (simp add: depth_def)
    next
      case False
      with e A show ?thesis
        by (auto simp: trellis_nth_A node_of_def A_edges_def depth_A depth_B)
    qed
  next
    case (B t i)
    with e show ?thesis
      by (auto simp: trellis_nth_B node_of_def B_edges_def depth_A depth_B split: if_splits)
  next
    case finish
    with e pos N show ?thesis
      by (auto simp: trellis_nth_end node_of_def F_edges_def depth_end depth_B)
  qed
  with ok show ?thesis by simp
qed

lemma trellis_path:
  assumes wf: "hmm_wf h" and T: "NTimepoints h = Inr T" and pos: "0 < T" and N: "0 < N_states h"
  shows "path_names w u x names \<Longrightarrow> w = trellis h T \<Longrightarrow> u = 0 \<Longrightarrow>
         length (filter is_E names) = depth (N_states h) x \<and> list_all (name_ok h) names
         \<and> x < 2 * N_states h * T + 2"
proof (induction rule: path_names.induct)
  case (path_nil w u)
  then show ?case by (simp add: depth_def)
next
  case (path_snoc w u p names c name wt)
  then have c: "c < 2 * N_states h * T + 2" by (simp add: length_trellis)
  from path_snoc have e: "(p, name, wt) \<in> set (in_edges (nodes (trellis h T) ! c))" by simp
  from trellis_edge[OF wf T pos N c e] path_snoc.IH[OF path_snoc.prems] c
  show ?case by simp
qed

lemma tally_edge_ok:
  assumes d: "tally_dims h v" and ok: "name_ok h name"
  shows "\<exists>v'. tally_edge h name v = Inr v'"
proof -
  obtain ty S1 S2 where pe: "parse_edge_name name = (ty, S1, S2)"
    by (cases "parse_edge_name name") auto
  have rows: "\<And>i. i < N_states h \<Longrightarrow> length (trans_counts v ! i) = N_states h"
    "\<And>i. i < N_states h \<Longrightarrow> length (emiss_counts v ! i) = N_symbols h"
    using d by (simp_all add: tally_dims_def list_all_length)
  have lens: "length (trans_counts v) = N_states h" "length (emiss_counts v) = N_states h"
    "length (state_counts v) = N_states h"
    using d by (simp_all add: tally_dims_def)
  from ok show ?thesis
    by (auto simp: name_ok_def pe tally_edge_def known_type_def incr2_def incr1_def rows lens)
qed

lemma tally_ok:
  assumes "list_all (name_ok h) names"
  shows "\<exists>v. foldM (tally_edge h) names (initial_tally h) = Inr v \<and> tally_dims h v"
proof (rule foldM_ok[where I = "tally_dims h"])
  show "tally_dims h (initial_tally h)" by (rule initial_tally_dims)
next
  fix name s assume n: "name \<in> set names" and d: "tally_dims h s"
  from n assms have "name_ok h name" by (simp add: list_all_iff)
  from tally_edge_ok[OF d this] obtain v' where v': "tally_edge h name s = Inr v'" by blast
  from tally_step(1)[OF v' d] v' show "\<exists>s'. tally_edge h name s = Inr s' \<and> tally_dims h s'" by blast
qed

lemma AdjustProbsToViterbi_ok:
  assumes wf: "hmm_wf h" and T: "NTimepoints h = Inr T" and pos: "0 < T"
    and names: "list_all (name_ok h) path" and cnt: "length (filter is_E path) = T"
  shows "\<exists>h' change. AdjustProbsToViterbi log_c h path = Inr (h', change, emitting_states path)"
proof -
  from tally_ok[OF names] obtain v where
    v: "foldM (tally_edge h) path (initial_tally h) = Inr v" by blast
  from tally_fold[OF v initial_tally_dims] have st: "states v = emitting_states path"
    by (simp add: initial_tally_def)
  have len: "length (emitting_states path) = T" using cnt by (simp add: emitting_states_def)
  have ne: "path \<noteq> []" using cnt pos by auto
  have t: "N_states h \<le> length (trans_probs h)" "\<forall>i<N_states h. N_states h \<le> length (trans_probs h ! i)"
    using wf by (simp_all add: hmm_wf_def list_all_length)
  have e: "N_states h \<le> length (symbol_emiss_probs h)"
      "\<forall>i<N_states h. N_symbols h \<le> length (symbol_emiss_probs h ! i)"
    if "is_discrete_HMM h"
    using wf that by (simp_all add: hmm_wf_def list_all_length)
  show ?thesis
  proof (cases "is_discrete_HMM h")
    case True
    show ?thesis
      using True e[OF True] ne
      by (simp add: AdjustProbsToViterbi_def v T len Let_def assign_table_closed[OF t]
            assign_table_closed st split: prod.splits)
  next
    case False
    show ?thesis
      using False ne
      by (simp add: AdjustProbsToViterbi_def v T len Let_def assign_table_closed[OF t] st
            split: prod.splits)
  qed
qed

lemma ViterbiTraining_ok:
  assumes all: "HasAllData h" and wf: "hmm_wf h" and T: "NTimepoints h = Inr T" and pos: "0 < T"
    and path: "path_names (trellis h T) 0 (end_id (N_states h) T)
                 (best_edges (FindBestPath (trellis h T)))"
  shows "\<exists>h' change.
           ViterbiTraining FindBestPath log_c h
             = Inr (h', change, emitting_states (best_edges (FindBestPath (trellis h T))))"
proof -
  have w: "to_WDAG h = Inr (trellis h T)" by (rule to_WDAG_trellis[OF all wf T pos])
  have N: "0 < N_states h"
  proof (rule ccontr)
    assume "\<not> 0 < N_states h"
    then have N0: "N_states h = 0" by simp
    have "\<And>w u x names. path_names w u x names \<Longrightarrow> w = trellis h T \<Longrightarrow> x = u"
    proof -
      fix w u x names
      show "path_names w u x names \<Longrightarrow> w = trellis h T \<Longrightarrow> x = u"
      proof (induction rule: path_names.induct)
        case (path_nil w u)
        show ?case by simp
      next
        case (path_snoc w u p names c name wt)
        then have "c < 2" by (simp add: length_trellis N0)
        then have "c = 0 \<or> c = 1" by auto
        moreover have "length (concat (map (layer h) [0..<T])) = 0"
          unfolding length_layers by (simp add: N0)
        then have "concat (map (layer h) [0..<T]) = []" by (simp only: length_0_conv)
        then have "nodes (trellis h T) = [node_of [], node_of []]"
          by (simp add: trellis_def F_edges_def N0)
        ultimately show ?case
          using path_snoc.hyps(3) path_snoc.prems by (auto simp: node_of_def)
      qed
    qed
    from this[OF path] show False by (simp add: end_id_def)
  qed
  from trellis_path[OF wf T pos N path] have
    "length (filter is_E (best_edges (FindBestPath (trellis h T)))) = T"
    "list_all (name_ok h) (best_edges (FindBestPath (trellis h T)))"
    using N by (simp_all add: depth_end)
  from AdjustProbsToViterbi_ok[where log_c = log_c, OF wf T pos this(2,1)] show ?thesis
    using all by (auto simp: ViterbiTraining_def w)
qed

text \<open>
  Claim C9.  After a successful call of \<^verbatim>\<open>ViterbiTraining\<close> the predicted states are the
  states named by the emission edges of the best path, there are as many of them as
  timepoints, each is a state id from 0 up to \<open>N_states - 1\<close>, and the frequency of
  state \<open>i\<close> is the number of its occurrences among them divided by the number of
  timepoints, as a real number.  And the call does succeed, for an HMM with all data
  loaded, tables of the declared dimensions, observations in range and at least one
  timepoint, whenever the solver returns the edge names of a path of the trellis from
  its start node to its end node.
\<close>

theorem ViterbiTraining_predicted_states:
  "(ViterbiTraining FindBestPath log_c h = Inr (h', change, predicted_states) \<longrightarrow>
      (\<exists>T wdag. NTimepoints h = Inr T \<and> to_WDAG h = Inr wdag
          \<and> predicted_states = emitting_states (best_edges (FindBestPath wdag))
          \<and> length predicted_states = T
          \<and> (\<forall>s\<in>set predicted_states. 0 \<le> s \<and> s < int (N_states h))
          \<and> length (state_freqs h') = N_states h
          \<and> (\<forall>i<N_states h.
               state_freqs h' ! i
                 = ddiv (double_of_int (int (count_list predicted_states (int i)))) (double_of_nat T)
               \<and> (0 < T \<longrightarrow>
                    state_freqs h' ! i
                      = Finite (real (count_list predicted_states (int i)) / real T)))))
   \<and> (HasAllData h \<longrightarrow> hmm_wf h \<longrightarrow> NTimepoints h = Inr T \<longrightarrow> 0 < T \<longrightarrow>
        to_WDAG h = Inr w \<longrightarrow>
        path_names w (the (req_start w)) (the (req_end w)) (best_edges (FindBestPath w)) \<longrightarrow>
        (\<exists>h1 change1. ViterbiTraining FindBestPath log_c h
             = Inr (h1, change1, emitting_states (best_edges (FindBestPath w)))))"
proof (intro conjI impI)
  assume run: "ViterbiTraining FindBestPath log_c h = Inr (h', change, predicted_states)"
  from ViterbiTraining_Inr[OF run] obtain wdag h0 where
    w: "to_WDAG h = Inr wdag"
    and a: "AdjustProbsToViterbi log_c h (best_edges (FindBestPath wdag)) = Inr (h0, change, predicted_states)"
    and h': "h' = h0\<lparr> ran_viterbi := True \<rparr>"
    by blast
  from AdjustProbsToViterbi_states[OF a] w h' show
    "\<exists>T wdag. NTimepoints h = Inr T \<and> to_WDAG h = Inr wdag
          \<and> predicted_states = emitting_states (best_edges (FindBestPath wdag))
          \<and> length predicted_states = T
          \<and> (\<forall>s\<in>set predicted_states. 0 \<le> s \<and> s < int (N_states h))
          \<and> length (state_freqs h') = N_states h
          \<and> (\<forall>i<N_states h.
               state_freqs h' ! i
                 = ddiv (double_of_int (int (count_list predicted_states (int i)))) (double_of_nat T)
               \<and> (0 < T \<longrightarrow>
                    state_freqs h' ! i
                      = Finite (real (count_list predicted_states (int i)) / real T)))"
    by auto
next
  assume all: "HasAllData h" and wf: "hmm_wf h" and T: "NTimepoints h = Inr T" and pos: "0 < T"
    and w: "to_WDAG h = Inr w"
    and path: "path_names w (the (req_start w)) (the (req_end w)) (best_edges (FindBestPath w))"
  have tr: "w = trellis h T" using to_WDAG_trellis[OF all wf T pos] w by simp
  have p: "path_names (trellis h T) 0 (end_id (N_states h) T) (best_edges (FindBestPath (trellis h T)))"
    using path by (simp add: tr) (simp add: trellis_def)
  from ViterbiTraining_ok[where FindBestPath = FindBestPath, OF all wf T pos p] show
    "\<exists>h1 change1. ViterbiTraining FindBestPath log_c h
             = Inr (h1, change1, emitting_states (best_edges (FindBestPath w)))"
    by (simp add: tr)
qed

lemma ex_path_names: "path_names ex_trellis 0 9 ex_path"
proof -
  have 0: "path_names ex_trellis 0 0 []" by (rule path_nil)
  have 1: "path_names ex_trellis 0 1 ([] @ [''S 0''])"
    by (rule path_snoc[OF 0, where wt = "Finite 0"]) (simp_all add: ex_trellis_def)
  have 2: "path_names ex_trellis 0 3 (([] @ [''S 0'']) @ [''E 0 -1''])"
    by (rule path_snoc[OF 1, where wt = "Finite 0"]) (simp_all add: ex_trellis_def)
  have 3: "path_names ex_trellis 0 5 ((([] @ [''S 0'']) @ [''E 0 -1'']) @ [''T 0 0''])"
    by (rule path_snoc[OF 2, where wt = "Finite 0"]) (simp_all add: ex_trellis_def)
  have 4: "path_names ex_trellis 0 7 (((([] @ [''S 0'']) @ [''E 0 -1'']) @ [''T 0 0'']) @ [''E 0 -1''])"
    by (rule path_snoc[OF 3, where wt = "Finite 0"]) (simp_all add: ex_trellis_def)
  have 5: "path_names ex_trellis 0 9
             ((((([] @ [''S 0'']) @ [''E 0 -1'']) @ [''T 0 0'']) @ [''E 0 -1'']) @ [''F''])"
    by (rule path_snoc[OF 4, where wt = "Finite 0"]) (simp_all add: ex_trellis_def)
  then show ?thesis by (simp add: ex_path_def)
qed

text \<open>
  The theorem of claim C9 on the two-state example, with a solver that returns the path
  through state 0.
\<close>

theorem ViterbiTraining_predicted_states_witness:
  "ViterbiTraining (\<lambda>w. w\<lparr> best_edges := ex_path \<rparr>) dlog ex_hmm =
     Inr (ex_hmm\<lparr> state_freqs := [Finite 1, Finite 0],
                   trans_probs := [[Finite 0, MinusInf], [Finite (- ln 2), Finite (- ln 2)]],
                   ran_viterbi := True \<rparr>,
          True, [0, 0])
   \<and> NTimepoints ex_hmm = Inr 2 \<and> length [0::int, 0] = 2
   \<and> HasAllData ex_hmm \<and> hmm_wf ex_hmm \<and> to_WDAG ex_hmm = Inr ex_trellis
   \<and> path_names ex_trellis 0 9 ex_path"
proof -
  have run: "ViterbiTraining (\<lambda>w. w\<lparr> best_edges := ex_path \<rparr>) dlog ex_hmm =
     Inr (ex_hmm\<lparr> state_freqs := [Finite 1, Finite 0],
                   trans_probs := [[Finite 0, MinusInf], [Finite (- ln 2), Finite (- ln 2)]],
                   ran_viterbi := True \<rparr>,
          True, [0, 0])"
    by (simp add: ViterbiTraining_def ex_trellis ex_run)
       (simp add: ex_hmm_def eval_simps)
  have T: "NTimepoints ex_hmm = Inr 2" and a: "HasAllData ex_hmm"
    by (simp_all add: ex_hmm_def eval_simps)
  have wf: "hmm_wf ex_hmm"
    by (simp add: hmm_wf_def ex_hmm_def eval_simps)
  show ?thesis
    using ViterbiTraining_predicted_states[of "\<lambda>w. w\<lparr> best_edges := ex_path \<rparr>" dlog ex_hmm _ True "[0, 0]" 2
        ex_trellis]
    by (intro conjI)
       (rule run, rule T, simp (no_asm), rule a, rule wf, rule ex_trellis, rule ex_path_names)
qed

section \<open>Shifting the rows of the time emission matrix\<close>

lemma max_fold_shift:
  "foldl (\<lambda>largest y. if dless largest y then y else largest) (Finite (x + c)) (map (\<lambda>x. Finite (x + c)) xs)
     = dadd (foldl (\<lambda>largest y. if dless largest y then y else largest) (Finite x) (map Finite xs)) (Finite c)
   \<and> (\<exists>m. foldl (\<lambda>largest y. if dless largest y then y else largest) (Finite x) (map Finite xs) = Finite m)"
proof (induction xs arbitrary: x)
  case Nil
  show ?case by simp
next
  case (Cons y ys)
  show ?case using Cons[of y] Cons[of x] by simp
qed

lemma max_element_shift:
  "row \<noteq> [] \<Longrightarrow>
   \<exists>m. max_element (map Finite row) = Some (Finite m)
      \<and> max_element (map (\<lambda>x. Finite (x + c)) row) = Some (Finite (m + c))"
proof (cases row)
  case Nil
  assume "row \<noteq> []" with Nil show ?thesis by simp
next
  case (Cons x xs)
  from max_fold_shift[of x c xs] obtain m where
    m: "foldl (\<lambda>largest y. if dless largest y then y else largest) (Finite x) (map Finite xs) = Finite m"
    and s: "foldl (\<lambda>largest y. if dless largest y then y else largest) (Finite (x + c))
              (map (\<lambda>x. Finite (x + c)) xs) = dadd (Finite m) (Finite c)"
    by auto
  show ?thesis using m s by (simp add: Cons)
qed

lemma store_row_finite:
  "list_all (\<lambda>x. \<not> deq (Finite x) LOG_ZERO) row \<Longrightarrow>
   store_row LOG_ZERO (Finite m) (map Finite row) = Inr (map (\<lambda>x. Finite (x - m)) row)"
  by (induction row) (simp_all add: dneq_def dsub_def)

lemma store_row_shift:
  assumes "list_all (\<lambda>x. \<not> deq (Finite x) LOG_ZERO) row"
    and "list_all (\<lambda>x. \<not> deq (Finite x) LOG_ZERO) (map (\<lambda>x. x + c) row)"
  shows "store_row LOG_ZERO (Finite (m + c)) (map Finite (map (\<lambda>x. x + c) row))
           = store_row LOG_ZERO (Finite m) (map Finite row)"
  using store_row_finite[OF assms(1), of m] store_row_finite[OF assms(2), of "m + c"]
  by (simp add: comp_def)

lemma store_rows_Cons_cong:
  "max_element r1 = Some m1 \<Longrightarrow> max_element r2 = Some m2 \<Longrightarrow>
   store_row LOG_ZERO m1 r1 = store_row LOG_ZERO m2 r2 \<Longrightarrow>
   store_rows LOG_ZERO M1 = store_rows LOG_ZERO M2 \<Longrightarrow>
   store_rows LOG_ZERO (r1 # M1) = store_rows LOG_ZERO (r2 # M2)"
  by (cases "store_row LOG_ZERO m2 r2") simp_all

lemma store_rows_shift:
  "length cs = length rs \<Longrightarrow> no_LOG_ZERO LOG_ZERO rs \<Longrightarrow> no_LOG_ZERO LOG_ZERO (shift_rows cs rs) \<Longrightarrow>
   store_rows LOG_ZERO (finite_matrix (shift_rows cs rs)) = store_rows LOG_ZERO (finite_matrix rs)"
proof (induction rs arbitrary: cs)
  case Nil
  then show ?case by (simp add: shift_rows_def finite_matrix_def)
next
  case (Cons row rs)
  then obtain c cs' where cs: "cs = c # cs'" and len: "length cs' = length rs"
    by (cases cs) auto
  have ok: "list_all (\<lambda>x. \<not> deq (Finite x) LOG_ZERO) row"
      "list_all (\<lambda>x. \<not> deq (Finite x) LOG_ZERO) (map (\<lambda>x. x + c) row)"
      "no_LOG_ZERO LOG_ZERO rs" "no_LOG_ZERO LOG_ZERO (shift_rows cs' rs)"
    using Cons.prems by (simp_all add: no_LOG_ZERO_def shift_rows_def cs)
  have IH: "store_rows LOG_ZERO (finite_matrix (shift_rows cs' rs)) = store_rows LOG_ZERO (finite_matrix rs)"
    using Cons.IH[OF len ok(3,4)] .
  show ?case
  proof (cases "row = []")
    case True
    then show ?thesis by (simp add: shift_rows_def finite_matrix_def cs)
  next
    case False
    from max_element_shift[OF False, of c] obtain m where
      m: "max_element (map Finite row) = Some (Finite m)"
      "max_element (map (\<lambda>x. Finite (x + c)) row) = Some (Finite (m + c))"
      by blast
    have "store_rows LOG_ZERO (finite_matrix (shift_rows cs (row # rs)))
        = store_rows LOG_ZERO (map Finite (map (\<lambda>x. x + c) row) # finite_matrix (shift_rows cs' rs))"
      by (simp add: shift_rows_def finite_matrix_def cs)
    also have "\<dots> = store_rows LOG_ZERO (map Finite row # finite_matrix rs)"
    proof (rule store_rows_Cons_cong)
      show "max_element (map Finite (map (\<lambda>x. x + c) row)) = Some (Finite (m + c))"
        using m(2) by (simp add: comp_def)
      show "max_element (map Finite row) = Some (Finite m)" by (rule m(1))
      show "store_row LOG_ZERO (Finite (m + c)) (map Finite (map (\<lambda>x. x + c) row))
              = store_row LOG_ZERO (Finite m) (map Finite row)"
        by (rule store_row_shift[OF ok(1,2)])
      show "store_rows LOG_ZERO (finite_matrix (shift_rows cs' rs)) = store_rows LOG_ZERO (finite_matrix rs)"
        by (rule IH)
    qed
    finally show ?thesis by (simp add: finite_matrix_def)
  qed
qed

lemma list_ex_length:
  "list_ex (\<lambda>row. length row \<noteq> n) xs = list_ex (\<lambda>k. k \<noteq> n) (map length xs)"
  by (simp add: list_ex_iff)

lemma SetTimeEmissProbs_shift:
  assumes "length cs = length rs" and "no_LOG_ZERO LOG_ZERO rs"
    and "no_LOG_ZERO LOG_ZERO (shift_rows cs rs)"
  shows "SetTimeEmissProbs LOG_ZERO h (finite_matrix (shift_rows cs rs))
           = SetTimeEmissProbs LOG_ZERO h (finite_matrix rs)"
proof -
  have e: "finite_matrix (shift_rows cs rs) = [] \<longleftrightarrow> finite_matrix rs = []"
    using assms(1) by (cases cs; cases rs) (simp_all add: finite_matrix_def shift_rows_def)
  have "map length (shift_rows cs rs) = map length rs"
    using assms(1) by (induction cs rs rule: list_induct2) (simp_all add: shift_rows_def)
  then have "map length (finite_matrix (shift_rows cs rs)) = map length (finite_matrix rs)"
    by (simp add: finite_matrix_def comp_def)
  then have l: "list_ex (\<lambda>row. length row \<noteq> N_states h) (finite_matrix (shift_rows cs rs))
       = list_ex (\<lambda>row. length row \<noteq> N_states h) (finite_matrix rs)"
    using list_ex_length[of "N_states h" "finite_matrix (shift_rows cs rs)"]
      list_ex_length[of "N_states h" "finite_matrix rs"]
    by simp
  show ?thesis
    unfolding SetTimeEmissProbs_def e l store_rows_shift[OF assms] by (rule refl)
qed

lemma cont_load:
  "SetTimeEmissProbs MinusInf cont_hmm [[Finite 0, Finite (- 1)], [Finite 0, Finite (- 1)]] = Inr ex_hmm"
  by (simp add: SetTimeEmissProbs_def cont_hmm_def ex_hmm_def HMM_def is_discrete_HMM_def
        dneq_def deq_def dsub_def)

lemma cont_load_shifted:
  "SetTimeEmissProbs MinusInf cont_hmm [[Finite 0, Finite (- 1)], [Finite 1000, Finite 999]] = Inr ex_hmm"
  by (simp add: SetTimeEmissProbs_def cont_hmm_def ex_hmm_def HMM_def is_discrete_HMM_def
        dneq_def deq_def dsub_def)

lemma ex_alpha: "Alpha_spec lnsum_exact MinusInf ex_trellis = Finite 0"
  by (simp add: Alpha_spec_def forward_probs_def ex_trellis_def lnsum_exact_def eval_simps)

text \<open>
  Claim C4, as stated, fails: adding 1000 to every entry of the second row of the
  supplied matrix does not shift \<open>alpha\<close> by 1000.  \<^verbatim>\<open>SetTimeEmissProbs\<close> stores the same
  table for both matrices, and \<open>alpha\<close> is 0 for both.
\<close>

theorem shift_leaves_alpha_counterexample:
  "ebind (SetTimeEmissProbs MinusInf cont_hmm [[Finite 0, Finite (- 1)], [Finite 0, Finite (- 1)]])
     (\<lambda>h. ebind (to_WDAG h) (\<lambda>w. Inr (Alpha_spec lnsum_exact MinusInf w))) = Inr (Finite 0)
   \<and> ebind (SetTimeEmissProbs MinusInf cont_hmm [[Finite 0, Finite (- 1)], [Finite 1000, Finite 999]])
     (\<lambda>h. ebind (to_WDAG h) (\<lambda>w. Inr (Alpha_spec lnsum_exact MinusInf w))) = Inr (Finite 0)
   \<and> dadd (Finite 0) (Finite 1000) \<noteq> Finite 0"
  by (simp add: cont_load cont_load_shifted ex_trellis ex_alpha)

text \<open>
  Claim C4, amended.  For a matrix of finite entries, adding a constant \<open>c\<^sub>t\<close> to every
  entry of row \<open>t\<close> of the supplied matrix changes nothing, provided that neither matrix
  has an entry equal to \<^verbatim>\<open>LOG_ZERO\<close>: the maximum of each row is subtracted before the row
  is stored, so \<^verbatim>\<open>SetTimeEmissProbs\<close> returns the same HMM, \<^verbatim>\<open>to_WDAG\<close> the same trellis,
  and a Baum-Welch training from the same starting parameters the same updated
  parameters, the same change flag and the same log-likelihood, with whatever solver:
  \<open>alpha\<close> is not shifted.
\<close>

theorem shift_invariance:
  assumes "length cs = length rs" and "no_LOG_ZERO LOG_ZERO rs"
    and "no_LOG_ZERO LOG_ZERO (shift_rows cs rs)"
  shows "SetTimeEmissProbs LOG_ZERO h (finite_matrix (shift_rows cs rs))
           = SetTimeEmissProbs LOG_ZERO h (finite_matrix rs)
       \<and> ebind (SetTimeEmissProbs LOG_ZERO h (finite_matrix (shift_rows cs rs))) to_WDAG
           = ebind (SetTimeEmissProbs LOG_ZERO h (finite_matrix rs)) to_WDAG
       \<and> ebind (SetTimeEmissProbs LOG_ZERO h (finite_matrix (shift_rows cs rs)))
            (BaumWelchTraining FindPosteriorProbs Alpha LOG_ZERO lnsum log_c)
           = ebind (SetTimeEmissProbs LOG_ZERO h (finite_matrix rs))
               (BaumWelchTraining FindPosteriorProbs Alpha LOG_ZERO lnsum log_c)"
  using SetTimeEmissProbs_shift[OF assms, of h] by simp

text \<open>
  The amended claim C4 on the matrix of the example, with its second row shifted by 1000.
\<close>

theorem shift_invariance_witness:
  "SetTimeEmissProbs MinusInf cont_hmm [[Finite 0, Finite (- 1)], [Finite 1000, Finite 999]]
     = SetTimeEmissProbs MinusInf cont_hmm [[Finite 0, Finite (- 1)], [Finite 0, Finite (- 1)]]"
  using shift_invariance[of "[0, 1000]" "[[0, - 1], [0, - 1]]" MinusInf cont_hmm]
  by (simp add: shift_rows_def finite_matrix_def no_LOG_ZERO_def deq_def)

end
